theory Spec2Isabelle
  imports Complex_Main
begin

section \<open>Python values\<close>

text \<open>
  Python integers are unbounded and are modelled by \<open>int\<close>.  A text that the program
  builds from ASCII literals and digits is a \<open>string\<close>.  A text that comes from outside
  (a title) is a list of Unicode code points, so that its length is the number of code
  points, as Python's \<open>len\<close> counts.  Exceptions are values of \<open>py_error\<close>, and a function
  that can raise returns \<open>py_error + 'a\<close>.
\<close>

datatype py_error = OverflowError | ZeroDivisionError | ValueError | IndexError

type_synonym pystr = "nat list"

definition ascii :: "string \<Rightarrow> pystr" where
  "ascii s = map of_char s"

definition py_bind :: "py_error + 'a \<Rightarrow> ('a \<Rightarrow> py_error + 'b) \<Rightarrow> py_error + 'b" where
  "py_bind m f = (case m of Inl err \<Rightarrow> Inl err | Inr x \<Rightarrow> f x)"

definition digit_char :: "nat \<Rightarrow> char" where
  "digit_char d = ''0123456789'' ! d"

text \<open>\<open>str(n)\<close> for a natural number: its decimal digits, most significant first.\<close>

fun str_nat :: "nat \<Rightarrow> string" where
  "str_nat n = (if n < 10 then [digit_char n] else str_nat (n div 10) @ [digit_char (n mod 10)])"

declare str_nat.simps [simp del]

text \<open>\<open>str(i)\<close>, which is also what \<open>f"{i}"\<close> prints for an integer.\<close>

definition py_str :: "int \<Rightarrow> string" where
  "py_str i = (if i < 0 then CHR ''-'' # str_nat (nat (- i)) else str_nat (nat i))"

text \<open>\<open>f"{i:02d}"\<close>: the decimal digits, padded with a zero to two characters.\<close>

definition fmt_02d :: "int \<Rightarrow> string" where
  "fmt_02d i = (let s = py_str i in if length s < 2 then CHR ''0'' # s else s)"

text \<open>
  \<open>str.isspace\<close> on one code point: the code points Python treats as whitespace, which
  are the separators of \<open>str.split()\<close>.
\<close>

definition isspace :: "nat \<Rightarrow> bool" where
  "isspace c =
     ((9 \<le> c \<and> c \<le> 13) \<or> (28 \<le> c \<and> c \<le> 32) \<or> c = 133 \<or> c = 160 \<or> c = 5760
      \<or> (8192 \<le> c \<and> c \<le> 8202) \<or> c = 8232 \<or> c = 8233 \<or> c = 8239 \<or> c = 8287 \<or> c = 12288)"

text \<open>
  \<open>t.split()\<close> with no argument: the maximal runs of non-whitespace code points, in
  order.  The first argument is the run being read.
\<close>

fun split_from :: "pystr \<Rightarrow> pystr \<Rightarrow> pystr list" where
  "split_from cur [] = (if cur = [] then [] else [cur])"
| "split_from cur (c # cs) =
     (if isspace c then (if cur = [] then split_from [] cs else cur # split_from [] cs)
      else split_from (cur @ [c]) cs)"

definition py_split :: "pystr \<Rightarrow> pystr list" where
  "py_split t = split_from [] t"

text \<open>\<open>sep.join(xs)\<close>.\<close>

fun py_join :: "'a list \<Rightarrow> 'a list list \<Rightarrow> 'a list" where
  "py_join sep [] = []"
| "py_join sep [x] = x"
| "py_join sep (x # y # ys) = x @ sep @ py_join sep (y # ys)"

section \<open>Python floats\<close>

text \<open>
  A Python \<open>float\<close> is an IEEE 754 binary64 number.  \<open>Finite m e\<close> is the number
  \<open>m * 2 ^ e\<close>; every operation below rounds its exact result to the nearest binary64
  number, ties to even, as CPython does.  The negative zero is not represented: no
  operation of this program tells it from zero.
\<close>

datatype pyfloat = Finite int int | PosInf | NegInf | NaN

text \<open>The integer nearest to \<open>p / q\<close> for \<open>0 \<le> p\<close> and \<open>0 < q\<close>, ties to even.\<close>

definition round_half_even :: "int \<Rightarrow> int \<Rightarrow> int" where
  "round_half_even p q =
     (let f = p div q; r = p mod q
      in if 2 * r < q then f else if q < 2 * r then f + 1 else if even f then f else f + 1)"

text \<open>\<open>int.bit_length\<close> of a non-negative integer.\<close>

function bit_length :: "int \<Rightarrow> int" where
  "bit_length n = (if n \<le> 0 then 0 else 1 + bit_length (n div 2))"
  by pat_completeness auto
termination
  by (relation "measure nat") auto

declare bit_length.simps [simp del]

text \<open>
  The binade of \<open>p / q\<close> for positive \<open>p\<close> and \<open>q\<close>: the \<open>k\<close> with
  \<open>2 ^ k \<le> p / q < 2 ^ (k + 1)\<close>, found from the bit lengths and one comparison.
\<close>

definition binade :: "int \<Rightarrow> int \<Rightarrow> int" where
  "binade p q =
     (let d = bit_length p - bit_length q
      in if q * 2 ^ nat d \<le> p * 2 ^ nat (- d) then d else d - 1)"

text \<open>
  The binary64 number nearest to \<open>p / q\<close> (\<open>0 \<le> p\<close>, \<open>0 < q\<close>) as mantissa and exponent,
  the exponent not yet bounded above: 53 significant bits, and the fixed exponent
  \<open>-1074\<close> in the subnormal range.
\<close>

definition round_double :: "int \<Rightarrow> int \<Rightarrow> int \<times> int" where
  "round_double p q =
     (if p = 0 then (0, 0)
      else let e = max (binade p q - 52) (- 1074)
           in (round_half_even (p * 2 ^ nat (- e)) (q * 2 ^ nat e), e))"

text \<open>
  The binary64 value of \<open>p / q\<close> for any \<open>p\<close> and \<open>0 < q\<close>: an infinity once the rounded
  magnitude reaches \<open>2 ^ 1024\<close>.
\<close>

definition nearest_double :: "int \<Rightarrow> int \<Rightarrow> pyfloat" where
  "nearest_double p q =
     (case round_double \<bar>p\<bar> q of (m, e) \<Rightarrow>
        if e > 971 \<or> (e = 971 \<and> m \<ge> 2 ^ 53) then (if p < 0 then NegInf else PosInf)
        else Finite (sgn p * m) e)"

text \<open>
  \<open>a / b\<close> on two integers: the correctly rounded quotient, \<open>OverflowError\<close> when it is
  too large for a float.
\<close>

definition truediv :: "int \<Rightarrow> int \<Rightarrow> py_error + pyfloat" where
  "truediv a b =
     (if b = 0 then Inl ZeroDivisionError
      else case nearest_double (a * sgn b) \<bar>b\<bar> of
             Finite m e \<Rightarrow> Inr (Finite m e)
           | _ \<Rightarrow> Inl OverflowError)"

text \<open>The conversion of an integer operand to a float, before a mixed operation.\<close>

definition float_of_int :: "int \<Rightarrow> py_error + pyfloat" where
  "float_of_int c =
     (case nearest_double c 1 of Finite m e \<Rightarrow> Inr (Finite m e) | _ \<Rightarrow> Inl OverflowError)"

text \<open>The product of two floats.\<close>

fun fmul :: "pyfloat \<Rightarrow> pyfloat \<Rightarrow> pyfloat" where
  "fmul (Finite m1 e1) (Finite m2 e2) =
     nearest_double (m1 * m2 * 2 ^ nat (e1 + e2)) (2 ^ nat (- (e1 + e2)))"
| "fmul (Finite m e) PosInf = (if m = 0 then NaN else if m < 0 then NegInf else PosInf)"
| "fmul (Finite m e) NegInf = (if m = 0 then NaN else if m < 0 then PosInf else NegInf)"
| "fmul PosInf (Finite m e) = (if m = 0 then NaN else if m < 0 then NegInf else PosInf)"
| "fmul NegInf (Finite m e) = (if m = 0 then NaN else if m < 0 then PosInf else NegInf)"
| "fmul PosInf PosInf = PosInf"
| "fmul PosInf NegInf = NegInf"
| "fmul NegInf PosInf = NegInf"
| "fmul NegInf NegInf = PosInf"
| "fmul NaN y = NaN"
| "fmul x NaN = NaN"

text \<open>\<open>int(x)\<close> on a float: truncation toward zero.\<close>

fun int_of_float :: "pyfloat \<Rightarrow> py_error + int" where
  "int_of_float (Finite m e) = Inr (sgn m * ((\<bar>m\<bar> * 2 ^ nat e) div 2 ^ nat (- e)))"
| "int_of_float PosInf = Inl OverflowError"
| "int_of_float NegInf = Inl OverflowError"
| "int_of_float NaN = Inl ValueError"

text \<open>\<open>int(c * f)\<close> for an integer \<open>c\<close> and a float \<open>f\<close>.\<close>

definition int_scaled :: "int \<Rightarrow> pyfloat \<Rightarrow> py_error + int" where
  "int_scaled c f = py_bind (float_of_int c) (\<lambda>x. int_of_float (fmul x f))"

text \<open>
  \<open>f"{x:.1f}"\<close>: the decimal with one fractional digit nearest to the exact value of
  \<open>x\<close>, ties to even.
\<close>

fun format_1f :: "pyfloat \<Rightarrow> string" where
  "format_1f (Finite m e) =
     (let t = round_half_even (10 * \<bar>m\<bar> * 2 ^ nat e) (2 ^ nat (- e))
      in (if m < 0 then ''-'' else '''') @ py_str (t div 10) @ ''.'' @ py_str (t mod 10))"
| "format_1f PosInf = ''inf''"
| "format_1f NegInf = ''-inf''"
| "format_1f NaN = ''nan''"

text \<open>The float literals of the program: the binary64 number nearest to the decimal.\<close>

definition lit_1_05 :: pyfloat where "lit_1_05 = nearest_double 105 100"
definition lit_0_92 :: pyfloat where "lit_0_92 = nearest_double 92 100"
definition lit_0_16 :: pyfloat where "lit_0_16 = nearest_double 16 100"
definition lit_0_20 :: pyfloat where "lit_0_20 = nearest_double 20 100"

section \<open>Text wrapper: \<open>wrap\<close> inside \<open>make_thumb\<close>\<close>

text \<open>
  The loop of \<open>wrap\<close> over the words, on the pair \<open>(lines, buf)\<close>:
  \<^verbatim>\<open>
    for w in words:
        if sum(len(x) for x in buf) + len(buf) - 1 + len(w) > max_chars:
            lines.append(" ".join(buf)); buf = [w]
        else:
            buf.append(w)
  \<close>
  With an empty \<open>buf\<close> the term \<open>len(buf) - 1\<close> is \<open>-1\<close>, so the sum is computed in \<open>int\<close>.
\<close>

definition buf_cost :: "pystr list \<Rightarrow> pystr \<Rightarrow> int" where
  "buf_cost buf w = sum_list (map (\<lambda>x. int (length x)) buf) + int (length buf) - 1 + int (length w)"

fun wrap_loop :: "int \<Rightarrow> pystr list \<Rightarrow> pystr list \<times> pystr list \<Rightarrow> pystr list \<times> pystr list" where
  "wrap_loop max_chars [] (lines, buf) = (lines, buf)"
| "wrap_loop max_chars (w # ws) (lines, buf) =
     (if buf_cost buf w > max_chars
      then wrap_loop max_chars ws (lines @ [py_join [32] buf], [w])
      else wrap_loop max_chars ws (lines, buf @ [w]))"

text \<open>
  After the loop: \<open>if buf: lines.append(" ".join(buf))\<close>, then
  \<open>return "\n".join(lines[:2])\<close>.  The space is code point 32, the line feed 10.
\<close>

definition wrap_lines :: "pystr \<Rightarrow> int \<Rightarrow> pystr list" where
  "wrap_lines t max_chars =
     (case wrap_loop max_chars (py_split t) ([], []) of
        (lines, buf) \<Rightarrow> if buf \<noteq> [] then lines @ [py_join [32] buf] else lines)"

definition wrap :: "pystr \<Rightarrow> int \<Rightarrow> pystr" where
  "wrap t max_chars = py_join [10] (take 2 (wrap_lines t max_chars))"

section \<open>Text formatter\<close>

text \<open>
  \<open>fmt_views\<close> (a conditional expression in better_gui_concept.py, three \<open>if\<close>s in
  gui_concept.py, the same function).  \<open>v/1_000_000\<close> is the true division of two
  integers.
\<close>

definition fmt_views :: "int \<Rightarrow> py_error + string" where
  "fmt_views v =
     (if v \<ge> 1000000 then
        py_bind (truediv v 1000000) (\<lambda>x. Inr (format_1f x @ ''M views''))
      else if v \<ge> 1000 then
        py_bind (truediv v 1000) (\<lambda>x. Inr (format_1f x @ ''K views''))
      else Inr (py_str v @ '' views''))"


section \<open>Mock catalog\<close>

record video =
  vid_id :: string
  title :: pystr
  channel :: string
  views :: int
  age_days :: int
  duration :: string
  color :: "int \<times> int \<times> int"

definition palette :: "(int \<times> int \<times> int) list" where
  "palette = [(220, 20, 60), (65, 105, 225), (255, 140, 0), (34, 139, 34),
              (123, 104, 238), (255, 99, 71), (0, 191, 255)]"

text \<open>
  The title pool of gui_concept.py; two titles hold an em dash, code point 8212.
\<close>

definition titles_gui :: "pystr list" where
  "titles_gui =
     [ascii ''How to Build a Python GUI Like YouTube'',
      ascii ''10 CustomTkinter Tips You Need'',
      ascii ''Lofi Beats to Code/Study To '' @ [8212] @ ascii '' 3 Hours'',
      ascii ''The Secret History of GUIs'',
      ascii ''I Recreated YouTube in 200 Lines (Kinda)'',
      ascii ''Designing Dark Mode the Right Way'',
      ascii ''Keyboard Shortcuts that Change Everything'',
      ascii ''Productivity Myths Busted!'',
      ascii ''Learn PIL in 15 Minutes'',
      ascii ''My Desk Setup 2025 '' @ [8212] @ ascii '' Minimal & Clean'']"

text \<open>
  The title pool of better_gui_concept.py: the same titles, but the file holds the
  three code points 8218, 196, 238 where the other file holds the em dash.
\<close>

definition titles_better :: "pystr list" where
  "titles_better =
     [ascii ''How to Build a Python GUI Like YouTube'',
      ascii ''10 CustomTkinter Tips You Need'',
      ascii ''Lofi Beats to Code/Study To '' @ [8218, 196, 238] @ ascii '' 3 Hours'',
      ascii ''The Secret History of GUIs'',
      ascii ''I Recreated YouTube in 200 Lines (Kinda)'',
      ascii ''Designing Dark Mode the Right Way'',
      ascii ''Keyboard Shortcuts that Change Everything'',
      ascii ''Productivity Myths Busted!'',
      ascii ''Learn PIL in 15 Minutes'',
      ascii ''My Desk Setup 2025 '' @ [8218, 196, 238] @ ascii '' Minimal & Clean'']"

definition channels :: "string list" where
  "channels = [''CodeGarden'', ''UI Nerd'', ''Midnight Dev'', ''PixelSmith'', ''The Pythonist'',
               ''DesignSense'']"

text \<open>
  \<open>random.Random\<close> is the standard library's generator, not code of this repository: it
  is a parameter of the model.  \<open>seed rng s\<close> is the state of \<open>random.Random(s)\<close>, and
  \<open>randbelow rng g n\<close> is the library's one primitive draw \<open>_randbelow(n)\<close> from the state
  \<open>g\<close>: the number drawn and the state after it.
\<close>

record 'g rng =
  seed :: "int \<Rightarrow> 'g"
  randbelow :: "'g \<Rightarrow> nat \<Rightarrow> nat \<times> 'g"

text \<open>
  \<open>choice(seq)\<close> is \<open>seq[_randbelow(len(seq))]\<close>, and \<open>randint(a, b)\<close> is
  \<open>a + _randbelow(b - a + 1)\<close>: one draw each.
\<close>

definition choice :: "('g \<Rightarrow> nat \<Rightarrow> nat \<times> 'g) \<Rightarrow> 'g \<Rightarrow> 'a list \<Rightarrow> py_error + ('a \<times> 'g)" where
  "choice rb g xs =
     (if xs = [] then Inl IndexError
      else case rb g (length xs) of (r, g') \<Rightarrow>
             if r < length xs then Inr (xs ! r, g') else Inl IndexError)"

definition randint :: "('g \<Rightarrow> nat \<Rightarrow> nat \<times> 'g) \<Rightarrow> 'g \<Rightarrow> int \<Rightarrow> int \<Rightarrow> py_error + (int \<times> 'g)" where
  "randint rb g a b =
     (if b - a + 1 > 0 then (case rb g (nat (b - a + 1)) of (r, g') \<Rightarrow> Inr (a + int r, g'))
      else Inl ValueError)"

text \<open>
  One \<open>Video(...)\<close> of the catalog: Python evaluates the keyword arguments in the order
  they are written, and the three fields of the duration from left to right.
\<close>

definition make_video ::
  "('g \<Rightarrow> nat \<Rightarrow> nat \<times> 'g) \<Rightarrow> pystr list \<Rightarrow> 'g \<Rightarrow> int \<Rightarrow> py_error + (video \<times> 'g)" where
  "make_video rb titles g i =
     py_bind (choice rb g titles) (\<lambda>(t, g1).
     py_bind (choice rb g1 channels) (\<lambda>(c, g2).
     py_bind (randint rb g2 1000 2500000) (\<lambda>(v, g3).
     py_bind (randint rb g3 0 900) (\<lambda>(a, g4).
     py_bind (randint rb g4 1 2) (\<lambda>(h, g5).
     py_bind (randint rb g5 0 59) (\<lambda>(m, g6).
     py_bind (randint rb g6 0 59) (\<lambda>(s, g7).
     py_bind (choice rb g7 palette) (\<lambda>(col, g8).
       Inr (\<lparr>vid_id = ''vid_'' @ py_str i, title = t, channel = c, views = v, age_days = a,
              duration = py_str h @ '':'' @ fmt_02d m @ '':'' @ fmt_02d s, color = col\<rparr>,
            g8)))))))))"

text \<open>The loop \<open>for i in range(24)\<close>, from index \<open>i\<close> for \<open>n\<close> more records.\<close>

fun gen_videos ::
  "('g \<Rightarrow> nat \<Rightarrow> nat \<times> 'g) \<Rightarrow> pystr list \<Rightarrow> 'g \<Rightarrow> int \<Rightarrow> nat \<Rightarrow> py_error + video list" where
  "gen_videos rb titles g i 0 = Inr []"
| "gen_videos rb titles g i (Suc n) =
     py_bind (make_video rb titles g i) (\<lambda>(v, g').
     py_bind (gen_videos rb titles g' (i + 1) n) (\<lambda>vs. Inr (v # vs)))"

text \<open>\<open>_random = random.Random(42)\<close>, then the 24 records.\<close>

definition MOCK_VIDEOS :: "'g rng \<Rightarrow> pystr list \<Rightarrow> py_error + video list" where
  "MOCK_VIDEOS r titles = gen_videos (randbelow r) titles (seed r 42) 0 24"

section \<open>Colour variants of \<open>VideoCard.__init__\<close>\<close>

text \<open>
  \<open>tuple(min(255, int(c * 1.05)) for c in video.color)\<close> and
  \<open>tuple(max(0, int(c * 0.92)) for c in video.color)\<close>, channel by channel.
\<close>

definition alt1_channel :: "int \<Rightarrow> py_error + int" where
  "alt1_channel c = py_bind (int_scaled c lit_1_05) (\<lambda>n. Inr (min 255 n))"

definition alt2_channel :: "int \<Rightarrow> py_error + int" where
  "alt2_channel c = py_bind (int_scaled c lit_0_92) (\<lambda>n. Inr (max 0 n))"

definition alt1_color :: "int \<times> int \<times> int \<Rightarrow> py_error + (int \<times> int \<times> int)" where
  "alt1_color col =
     (case col of (r, g, b) \<Rightarrow>
        py_bind (alt1_channel r) (\<lambda>r'.
        py_bind (alt1_channel g) (\<lambda>g'.
        py_bind (alt1_channel b) (\<lambda>b'. Inr (r', g', b')))))"

definition alt2_color :: "int \<times> int \<times> int \<Rightarrow> py_error + (int \<times> int \<times> int)" where
  "alt2_color col =
     (case col of (r, g, b) \<Rightarrow>
        py_bind (alt2_channel r) (\<lambda>r'.
        py_bind (alt2_channel g) (\<lambda>g'.
        py_bind (alt2_channel b) (\<lambda>b'. Inr (r', g', b')))))"

section \<open>The imaging library\<close>

text \<open>
  Pillow is a parameter of the program, modelled by what its operations do to the mode
  and the size of an image and by the errors they raise.  The pixels are kept as the
  term of the operations that painted them, colours as they were supplied.  An image
  dimension is a C \<open>int\<close> in the library; running out of memory is not modelled.
\<close>

datatype mode = Mode_L | Mode_RGB | Mode_RGBA

fun bands :: "mode \<Rightarrow> nat" where
  "bands Mode_L = 1"
| "bands Mode_RGB = 3"
| "bands Mode_RGBA = 4"

datatype font = TrueType string int | DefaultFont

datatype paint =
    Fill "int list"
  | Polygon paint "(int \<times> int) list" "int list"
  | Text paint "int \<times> int" pystr font "int list"
  | RoundedRect paint "int \<times> int \<times> int \<times> int" int int
  | Converted mode paint
  | Composite paint paint "int \<times> int"
  | WithAlpha paint paint
  | Pasted paint paint "int \<times> int" paint
  | Blurred int paint
  | Resized "int \<times> int" paint

record image =
  im_mode :: mode
  im_size :: "int \<times> int"
  im_paint :: paint

definition INT_MAX :: int where
  "INT_MAX = 2 ^ 31 - 1"

text \<open>
  \<open>Image.new(mode, size, color)\<close>: \<open>ValueError\<close> for a negative width or height, and
  \<open>OverflowError\<close> for one that is no C \<open>int\<close>.  A zero width or height is accepted.
\<close>

definition Image_new :: "mode \<Rightarrow> int \<times> int \<Rightarrow> int list \<Rightarrow> py_error + image" where
  "Image_new m sz fill =
     (case sz of (w, h) \<Rightarrow>
        if w < 0 \<or> h < 0 then Inl ValueError
        else if w > INT_MAX \<or> h > INT_MAX then Inl OverflowError
        else Inr \<lparr>im_mode = m, im_size = (w, h), im_paint = Fill fill\<rparr>)"

text \<open>\<open>im.convert(mode)\<close>: a new image of the same size.\<close>

definition convert :: "image \<Rightarrow> mode \<Rightarrow> image" where
  "convert im m = im\<lparr>im_mode := m, im_paint := Converted m (im_paint im)\<rparr>"

text \<open>
  \<open>Image.alpha_composite(im1, im2)\<close>: a new image; \<open>ValueError\<close> unless both are RGBA
  images of one size.
\<close>

definition Image_alpha_composite :: "image \<Rightarrow> image \<Rightarrow> py_error + image" where
  "Image_alpha_composite im1 im2 =
     (if im_mode im1 = Mode_RGBA \<and> im_mode im2 = Mode_RGBA \<and> im_size im1 = im_size im2
      then Inr (im1\<lparr>im_paint := Composite (im_paint im1) (im_paint im2) (0, 0)\<rparr>)
      else Inl ValueError)"

text \<open>
  The method \<open>canvas.alpha_composite(im, dest)\<close>, in place: the overlay is composited
  onto the region of the canvas at \<open>dest\<close>; \<open>ValueError\<close> unless both are RGBA images.
\<close>

definition alpha_composite_at :: "image \<Rightarrow> image \<Rightarrow> int \<times> int \<Rightarrow> py_error + image" where
  "alpha_composite_at canvas im dest =
     (if im_mode canvas = Mode_RGBA \<and> im_mode im = Mode_RGBA
      then Inr (canvas\<lparr>im_paint := Composite (im_paint canvas) (im_paint im) dest\<rparr>)
      else Inl ValueError)"

text \<open>The drawing operations of \<open>ImageDraw.Draw(im)\<close> paint on \<open>im\<close> in place.\<close>

definition polygon :: "image \<Rightarrow> (int \<times> int) list \<Rightarrow> int list \<Rightarrow> image" where
  "polygon im points fill = im\<lparr>im_paint := Polygon (im_paint im) points fill\<rparr>"

definition multiline_text :: "image \<Rightarrow> int \<times> int \<Rightarrow> pystr \<Rightarrow> font \<Rightarrow> int list \<Rightarrow> image" where
  "multiline_text im xy t f fill = im\<lparr>im_paint := Text (im_paint im) xy t f fill\<rparr>"

text \<open>
  \<open>rounded_rectangle(xy, radius, fill)\<close>: \<open>ValueError\<close> when the box ends before it
  starts.
\<close>

definition rounded_rectangle :: "image \<Rightarrow> int \<times> int \<times> int \<times> int \<Rightarrow> int \<Rightarrow> int \<Rightarrow> py_error + image" where
  "rounded_rectangle im xy radius fill =
     (case xy of (x0, y0, x1, y1) \<Rightarrow>
        if x1 < x0 \<or> y1 < y0 then Inl ValueError
        else Inr (im\<lparr>im_paint := RoundedRect (im_paint im) xy radius fill\<rparr>))"

text \<open>
  \<open>im.putalpha(mask)\<close>, in place: \<open>ValueError\<close> unless the mask is an \<open>L\<close> image of the
  size of \<open>im\<close>; the image is RGBA afterwards.
\<close>

definition putalpha :: "image \<Rightarrow> image \<Rightarrow> py_error + image" where
  "putalpha im msk =
     (if im_mode msk = Mode_L \<and> im_size msk = im_size im
      then Inr (im\<lparr>im_mode := Mode_RGBA, im_paint := WithAlpha (im_paint im) (im_paint msk)\<rparr>)
      else Inl ValueError)"

text \<open>
  \<open>canvas.paste(im, (x, y), mask)\<close>, in place: \<open>ValueError\<close> unless the mask has the
  size of the pasted image.
\<close>

definition paste :: "image \<Rightarrow> image \<Rightarrow> int \<times> int \<Rightarrow> image \<Rightarrow> py_error + image" where
  "paste canvas im xy msk =
     (if im_size msk = im_size im
      then Inr (canvas\<lparr>im_paint := Pasted (im_paint canvas) (im_paint im) xy (im_paint msk)\<rparr>)
      else Inl ValueError)"

text \<open>\<open>im.filter(ImageFilter.GaussianBlur(radius))\<close>: a new image of the same size.\<close>

definition GaussianBlur :: "image \<Rightarrow> int \<Rightarrow> image" where
  "GaussianBlur im radius = im\<lparr>im_paint := Blurred radius (im_paint im)\<rparr>"

text \<open>
  \<open>im.resize(size, Image.LANCZOS)\<close>: a copy when the size is the image's own,
  \<open>ValueError\<close> for a width or height below 1, and otherwise a new image of that size
  and the same mode.
\<close>

definition resize :: "image \<Rightarrow> int \<times> int \<Rightarrow> py_error + image" where
  "resize im sz =
     (if im_size im = sz then Inr im
      else if fst sz < 1 \<or> snd sz < 1 then Inl ValueError
      else Inr (im\<lparr>im_size := sz, im_paint := Resized sz (im_paint im)\<rparr>))"

text \<open>
  The environment of a call: whether \<open>ImageFont.truetype("DejaVuSans.ttf", size)\<close> finds
  the font (it raises \<open>OSError\<close> otherwise), and the box that
  \<open>multiline_textbbox((0, 0), text, font)\<close> measures.  Measuring and drawing a text are
  taken to succeed with either font.
\<close>

record env =
  truetype_ok :: bool
  textbbox :: "font \<Rightarrow> pystr \<Rightarrow> int \<times> int \<times> int \<times> int"

text \<open>
  \<open>try: font = ImageFont.truetype("DejaVuSans.ttf", size)\<close> with the fallback
  \<open>ImageFont.load_default()\<close>.
\<close>

definition load_font :: "env \<Rightarrow> int \<Rightarrow> font" where
  "load_font ev sz = (if truetype_ok ev then TrueType ''DejaVuSans.ttf'' sz else DefaultFont)"

section \<open>Thumbnail factory\<close>

text \<open>
  \<open>ASSET_CACHE\<close> maps a key \<open>(text, color, size)\<close> to an image object.  Objects have an
  identity: the state holds the images made so far, and an image is referred to by its
  index among them.
\<close>

type_synonym key = "pystr \<times> (int \<times> int \<times> int) \<times> (int \<times> int)"

record state =
  ASSET_CACHE :: "key \<rightharpoonup> nat"
  objects :: "image list"

definition rgb :: "int \<times> int \<times> int \<Rightarrow> int list" where
  "rgb c = (case c of (r, g, b) \<Rightarrow> [r, g, b])"

text \<open>The three corners of the play triangle.\<close>

definition triangle :: "int \<Rightarrow> int \<Rightarrow> int \<Rightarrow> int \<Rightarrow> (int \<times> int) list" where
  "triangle W H tri_w tri_h =
     (let cx = W div 2; cy = H div 2
      in [(cx - tri_w div 3, cy - tri_h div 2), (cx - tri_w div 3, cy + tri_h div 2), (cx + tri_w, cy)])"

subsection \<open>better_gui_concept.py\<close>

definition rounded_shadow_rgba :: "int \<times> int \<Rightarrow> int \<Rightarrow> int \<Rightarrow> py_error + image" where
  "rounded_shadow_rgba sz radius shadow =
     (case sz of (w, h) \<Rightarrow>
        py_bind (Image_new Mode_RGBA (w + shadow * 2, h + shadow * 2) [0, 0, 0, 0]) (\<lambda>canvas.
        py_bind (Image_new Mode_L (w, h) [0]) (\<lambda>mask0.
        py_bind (rounded_rectangle mask0 (0, 0, w, h) radius 255) (\<lambda>mask.
        py_bind (Image_new Mode_RGBA (w, h) [0, 0, 0, 140]) (\<lambda>shadow_img.
        py_bind (paste canvas shadow_img (shadow, shadow) mask) (\<lambda>canvas'.
        Inr (GaussianBlur canvas' 10)))))))"

definition apply_rounded :: "image \<Rightarrow> int \<Rightarrow> py_error + image" where
  "apply_rounded img radius =
     py_bind (Image_new Mode_L (im_size img) [0]) (\<lambda>mask0.
     py_bind (rounded_rectangle mask0 (0, 0, fst (im_size img), snd (im_size img)) radius 255) (\<lambda>mask.
     putalpha (convert img Mode_RGBA) mask))"

text \<open>The body of \<open>make_thumb\<close> after the cache test, up to the resized canvas.\<close>

definition thumb_better :: "env \<Rightarrow> pystr \<Rightarrow> int \<times> int \<times> int \<Rightarrow> int \<times> int \<Rightarrow> py_error + image" where
  "thumb_better ev text col sz =
     (case sz of (base_w, base_h) \<Rightarrow>
        let W = base_w * 2; H = base_h * 2 in
        py_bind (Image_new Mode_RGB (W, H) (rgb col)) (\<lambda>img0.
        py_bind (Image_new Mode_RGBA (W, H) [0, 0, 0, 0]) (\<lambda>overlay0.
        py_bind (int_scaled W lit_0_16) (\<lambda>tri_w.
        py_bind (int_scaled H lit_0_20) (\<lambda>tri_h.
        let overlay = polygon overlay0 (triangle W H tri_w tri_h) [255, 255, 255, 150] in
        py_bind (Image_alpha_composite (convert img0 Mode_RGBA) overlay) (\<lambda>composed.
        let img1 = convert composed Mode_RGB;
            fnt = load_font ev 56;
            wrapped = wrap text 42
        in (case textbbox ev fnt wrapped of (x0, y0, x1, y1) \<Rightarrow>
        let h = y1 - y0; x = 32; y = H - h - 32;
            img2 = multiline_text img1 (x + 4, y + 4) wrapped fnt [0, 0, 0];
            img3 = multiline_text img2 (x, y) wrapped fnt [255, 255, 255]
        in
        py_bind (apply_rounded img3 36) (\<lambda>img4.
        py_bind (rounded_shadow_rgba (W, H) 36 16) (\<lambda>shadow.
        py_bind (Image_new Mode_RGBA (im_size shadow) [0, 0, 0, 0]) (\<lambda>canvas0.
        py_bind (alpha_composite_at canvas0 shadow (0, 0)) (\<lambda>canvas1.
        py_bind (alpha_composite_at canvas1 img4 (16, 16)) (\<lambda>canvas2.
        resize canvas2 (base_w, base_h)))))))))))))"

text \<open>
  \<open>make_thumb\<close>: a key in the cache returns the cached object; otherwise the canvas is
  made, becomes a new object, and is stored under the key.  An exception leaves the
  state as it was.
\<close>

definition store_thumb :: "state \<Rightarrow> key \<Rightarrow> image \<Rightarrow> nat \<times> state" where
  "store_thumb s k im =
     (length (objects s),
      s\<lparr>ASSET_CACHE := (ASSET_CACHE s)(k \<mapsto> length (objects s)), objects := objects s @ [im]\<rparr>)"

definition make_thumb_better ::
  "env \<Rightarrow> state \<Rightarrow> pystr \<Rightarrow> int \<times> int \<times> int \<Rightarrow> int \<times> int \<Rightarrow> py_error + (nat \<times> state)" where
  "make_thumb_better ev s text col sz =
     (case ASSET_CACHE s (text, col, sz) of
        Some obj \<Rightarrow> Inr (obj, s)
      | None \<Rightarrow> py_bind (thumb_better ev text col sz) (\<lambda>canvas.
                 Inr (store_thumb s (text, col, sz) canvas)))"

subsection \<open>gui_concept.py\<close>

text \<open>
  Here \<open>draw = ImageDraw.Draw(img)\<close> is made on the first image, before \<open>img\<close> is bound
  to the composed copy: the two \<open>multiline_text\<close> calls paint on the first image, and
  the image that is cached and returned is the composed one.
\<close>

definition thumb_gui :: "env \<Rightarrow> pystr \<Rightarrow> int \<times> int \<times> int \<Rightarrow> int \<times> int \<Rightarrow> py_error + image" where
  "thumb_gui ev text col sz =
     py_bind (Image_new Mode_RGB sz (rgb col)) (\<lambda>img0.
     py_bind (Image_new Mode_RGBA sz [0, 0, 0, 0]) (\<lambda>overlay0.
     py_bind (int_scaled (fst sz) lit_0_16) (\<lambda>tri_w.
     py_bind (int_scaled (snd sz) lit_0_20) (\<lambda>tri_h.
     let overlay = polygon overlay0 (triangle (fst sz) (snd sz) tri_w tri_h) [255, 255, 255, 150] in
     py_bind (Image_alpha_composite (convert img0 Mode_RGBA) overlay) (\<lambda>composed.
     let img = convert composed Mode_RGB;
         fnt = load_font ev 28;
         wrapped = wrap text 24
     in (case textbbox ev fnt wrapped of (x0, y0, x1, y1) \<Rightarrow>
     let h = y1 - y0; x = 16; y = snd sz - h - 16;
         drawn = multiline_text (multiline_text img0 (x + 2, y + 2) wrapped fnt [0, 0, 0])
                   (x, y) wrapped fnt [255, 255, 255]
     in Inr img))))))"

definition make_thumb_gui ::
  "env \<Rightarrow> state \<Rightarrow> pystr \<Rightarrow> int \<times> int \<times> int \<Rightarrow> int \<times> int \<Rightarrow> py_error + (nat \<times> state)" where
  "make_thumb_gui ev s text col sz =
     (case ASSET_CACHE s (text, col, sz) of
        Some obj \<Rightarrow> Inr (obj, s)
      | None \<Rightarrow> py_bind (thumb_gui ev text col sz) (\<lambda>return_img.
                 Inr (store_thumb s (text, col, sz) return_img)))"

section \<open>The operations as the specification words them\<close>

text \<open>
  The specification's greedy wrap, stated on its own: it shares no definition with
  \<open>wrap\<close> and its helpers.

  Whitespace is the Unicode whitespace: the controls TAB to CR and FS to US, the
  space, NEL, the no-break space, the Ogham space mark, the spaces EN QUAD to HAIR
  SPACE, the line and paragraph separators, the narrow no-break space, the medium
  mathematical space and the ideographic space.
\<close>

definition whitespace_points :: "nat list" where
  "whitespace_points =
     [9, 10, 11, 12, 13, 28, 29, 30, 31, 32, 133, 160, 5760, 8192, 8193, 8194, 8195, 8196,
      8197, 8198, 8199, 8200, 8201, 8202, 8232, 8233, 8239, 8287, 12288]"

text \<open>
  Splitting on whitespace: the text is cut at every whitespace code point, and the
  words are the pieces that are not empty.
\<close>

fun pieces :: "pystr \<Rightarrow> pystr list" where
  "pieces [] = [[]]"
| "pieces (c # cs) =
     (if c \<in> set whitespace_points then [] # pieces cs
      else case pieces cs of p # ps \<Rightarrow> (c # p) # ps | [] \<Rightarrow> [[c]])"

definition words_of :: "pystr \<Rightarrow> pystr list" where
  "words_of t = filter (\<lambda>w. w \<noteq> []) (pieces t)"

text \<open>
  A word joins the current line exactly when the lengths of the line's words, plus one
  separator between each two of them, plus the length of the word stay within
  \<open>maxChars\<close>; otherwise the current line is closed and the word starts the next one.
  After the last word the current line is closed.
\<close>

definition fits :: "int \<Rightarrow> pystr list \<Rightarrow> pystr \<Rightarrow> bool" where
  "fits maxChars line w =
     (sum_list (map (\<lambda>x. int (length x)) line) + (int (length line) - 1) + int (length w) \<le> maxChars)"

fun greedy_lines :: "int \<Rightarrow> pystr list \<Rightarrow> pystr list \<Rightarrow> pystr list list" where
  "greedy_lines maxChars line [] = [line]"
| "greedy_lines maxChars line (w # ws) =
     (if fits maxChars line w then greedy_lines maxChars (line @ [w]) ws
      else line # greedy_lines maxChars [w] ws)"

text \<open>
  The texts \<open>xs\<close> in a row with the code point \<open>sep\<close> before each of them but the first:
  the words of a line with single spaces (code point 32), the lines with line breaks
  (code point 10).
\<close>

definition separated :: "nat \<Rightarrow> pystr list \<Rightarrow> pystr" where
  "separated sep xs = (case xs of [] \<Rightarrow> [] | x # rest \<Rightarrow> x @ concat (map (\<lambda>y. sep # y) rest))"

text \<open>Only the first two lines are kept, and joined by a line break.\<close>

definition greedy_wrap :: "pystr \<Rightarrow> int \<Rightarrow> pystr" where
  "greedy_wrap t maxChars =
     separated 10 (take 2 (map (separated 32) (greedy_lines maxChars [] (words_of t))))"

text \<open>
  The code points at which a text breaks into lines (the boundaries of Python's
  \<open>str.splitlines\<close>).
\<close>

definition is_linebreak :: "nat \<Rightarrow> bool" where
  "is_linebreak c =
     ((10 \<le> c \<and> c \<le> 13) \<or> (28 \<le> c \<and> c \<le> 30) \<or> c = 133 \<or> c = 8232 \<or> c = 8233)"

text \<open>
  The first integer count whose quotient by \<open>b\<close> is too large for a float is
  \<open>b * double_overflow\<close>: the quotient then rounds to \<open>2 ^ 1024\<close>.
\<close>

definition double_overflow :: int where
  "double_overflow = 2 ^ 1024 - 2 ^ 970"

text \<open>
  The specification's \<open>brighten(color, factor)\<close>: each channel is multiplied by the
  factor, clamped to the range from 0 to 255, and floored.
\<close>

definition spec_channel :: "int \<Rightarrow> rat \<Rightarrow> int" where
  "spec_channel c factor = \<lfloor>min 255 (max 0 (of_int c * factor))\<rfloor>"

definition brighten :: "int \<times> int \<times> int \<Rightarrow> rat \<Rightarrow> int \<times> int \<times> int" where
  "brighten col factor =
     (case col of (r, g, b) \<Rightarrow> (spec_channel r factor, spec_channel g factor, spec_channel b factor))"

definition valid_color :: "int \<times> int \<times> int \<Rightarrow> bool" where
  "valid_color col =
     (case col of (r, g, b) \<Rightarrow> 0 \<le> r \<and> r \<le> 255 \<and> 0 \<le> g \<and> g \<le> 255 \<and> 0 \<le> b \<and> b \<le> 255)"

text \<open>
  The specification's catalog: the draws of one record, in the order title, channel,
  views, age, hour, minute, second, colour, each with its bound; and the catalog as a
  function of the list of all the numbers drawn.
\<close>

definition record_bounds :: "nat list" where
  "record_bounds = [10, 6, 2499001, 901, 2, 60, 60, 7]"

fun draw_all :: "('g \<Rightarrow> nat \<Rightarrow> nat \<times> 'g) \<Rightarrow> 'g \<Rightarrow> nat list \<Rightarrow> nat list" where
  "draw_all rb g [] = []"
| "draw_all rb g (n # ns) = (case rb g n of (r, g') \<Rightarrow> r # draw_all rb g' ns)"

definition record_of_draws :: "pystr list \<Rightarrow> int \<Rightarrow> nat list \<Rightarrow> py_error + video" where
  "record_of_draws titles i ds =
     (case ds of [t, c, v, a, h, m, s, col] \<Rightarrow>
        if t < 10 \<and> c < 6 \<and> col < 7 then
          Inr \<lparr>vid_id = ''vid_'' @ py_str i, title = titles ! t, channel = channels ! c,
               views = 1000 + int v, age_days = int a,
               duration = py_str (1 + int h) @ '':'' @ fmt_02d (int m) @ '':'' @ fmt_02d (int s),
               color = palette ! col\<rparr>
        else Inl IndexError
      | _ \<Rightarrow> Inl IndexError)"

fun catalog_of_draws :: "pystr list \<Rightarrow> int \<Rightarrow> nat \<Rightarrow> nat list \<Rightarrow> py_error + video list" where
  "catalog_of_draws titles i 0 ds = Inr []"
| "catalog_of_draws titles i (Suc n) ds =
     py_bind (record_of_draws titles i (take 8 ds)) (\<lambda>v.
     py_bind (catalog_of_draws titles (i + 1) n (drop 8 ds)) (\<lambda>vs. Inr (v # vs)))"

text \<open>
  A cache is sound for a mode when every object it holds for a key is an image of the
  key's size and of that mode.
\<close>

definition cache_sound :: "mode \<Rightarrow> state \<Rightarrow> bool" where
  "cache_sound m s =
     (\<forall>t c sz obj. ASSET_CACHE s (t, c, sz) = Some obj \<longrightarrow>
        obj < length (objects s) \<and> im_size (objects s ! obj) = sz \<and> im_mode (objects s ! obj) = m)"

definition empty_state :: state where
  "empty_state = \<lparr>ASSET_CACHE = Map.empty, objects = []\<rparr>"

text \<open>The image object that a call of \<open>make_thumb\<close> returns.\<close>

definition returned_image :: "py_error + (nat \<times> state) \<Rightarrow> py_error + image" where
  "returned_image res = (case res of Inl err \<Rightarrow> Inl err | Inr (obj, s) \<Rightarrow> Inr (objects s ! obj))"

text \<open>
  An environment for examples: the TrueType font is found, and a text is measured as
  eight pixels for each code point and sixteen for the height.
\<close>

definition plain_env :: env where
  "plain_env = \<lparr>truetype_ok = True, textbbox = (\<lambda>f t. (0, 0, 8 * int (length t), 16))\<rparr>"

section \<open>Properties of the text wrapper\<close>

lemma linebreak_isspace: "is_linebreak c \<Longrightarrow> isspace c"
  by (auto simp: is_linebreak_def isspace_def)

lemma split_from_nospace:
  "\<forall>c\<in>set cur. \<not> isspace c \<Longrightarrow> \<forall>w\<in>set (split_from cur t). \<forall>c\<in>set w. \<not> isspace c"
proof (induction t arbitrary: cur)
  case Nil
  then show ?case by simp
next
  case (Cons a t)
  show ?case
  proof (cases "isspace a")
    case True
    have "\<forall>w\<in>set (split_from [] t). \<forall>c\<in>set w. \<not> isspace c"
      by (rule Cons.IH) simp
    with True Cons.prems show ?thesis by simp
  next
    case False
    have "\<forall>w\<in>set (split_from (cur @ [a]) t). \<forall>c\<in>set w. \<not> isspace c"
      by (rule Cons.IH) (use False Cons.prems in simp)
    with False show ?thesis by simp
  qed
qed

lemma py_split_nospace: "w \<in> set (py_split t) \<Longrightarrow> c \<in> set w \<Longrightarrow> \<not> isspace c"
  unfolding py_split_def using split_from_nospace[of "[]" t] by simp

lemma set_py_join_space: "set (py_join [32::nat] ws) \<subseteq> insert 32 (\<Union>(set ` set ws))"
  by (induction "[32::nat]" ws rule: py_join.induct) auto

lemma space_not_linebreak: "\<not> is_linebreak 32"
  by (simp add: is_linebreak_def)

lemma join_nobreak:
  assumes "\<forall>w\<in>set ws. \<forall>c\<in>set w. \<not> is_linebreak c"
  shows "\<forall>c\<in>set (py_join [32] ws). \<not> is_linebreak c"
  using assms set_py_join_space[of ws] space_not_linebreak by blast

lemma wrap_loop_nobreak:
  assumes "wrap_loop m ws (lines, buf) = (lines', buf')"
    and "\<forall>w\<in>set ws. \<forall>c\<in>set w. \<not> is_linebreak c"
    and "\<forall>w\<in>set buf. \<forall>c\<in>set w. \<not> is_linebreak c"
    and "\<forall>l\<in>set lines. \<forall>c\<in>set l. \<not> is_linebreak c"
  shows "(\<forall>l\<in>set lines'. \<forall>c\<in>set l. \<not> is_linebreak c) \<and> (\<forall>w\<in>set buf'. \<forall>c\<in>set w. \<not> is_linebreak c)"
  using assms
proof (induction ws arbitrary: lines buf)
  case Nil
  then show ?case by simp
next
  case (Cons w ws)
  show ?case
  proof (cases "buf_cost buf w > m")
    case True
    have j: "\<forall>c\<in>set (py_join [32] buf). \<not> is_linebreak c"
      using Cons.prems(3) by (rule join_nobreak)
    have r: "wrap_loop m ws (lines @ [py_join [32] buf], [w]) = (lines', buf')"
      using Cons.prems(1) True by simp
    show ?thesis
      by (rule Cons.IH[OF r]) (use Cons.prems j in auto)
  next
    case False
    have r: "wrap_loop m ws (lines, buf @ [w]) = (lines', buf')"
      using Cons.prems(1) False by simp
    show ?thesis
      by (rule Cons.IH[OF r]) (use Cons.prems in auto)
  qed
qed

lemma wrap_lines_nobreak: 
  assumes a: "l \<in> set (wrap_lines t m)" shows "\<forall>c\<in>set l. \<not> is_linebreak c"
proof -
  obtain lines buf where r: "wrap_loop m (py_split t) ([], []) = (lines, buf)"
    by (cases "wrap_loop m (py_split t) ([], [])") auto
  have w: "\<forall>w\<in>set (py_split t). \<forall>c\<in>set w. \<not> is_linebreak c"
    using py_split_nospace linebreak_isspace by blast
  from wrap_loop_nobreak[OF r w]
  have inv: "(\<forall>l\<in>set lines. \<forall>c\<in>set l. \<not> is_linebreak c) \<and> (\<forall>w\<in>set buf. \<forall>c\<in>set w. \<not> is_linebreak c)"
    by simp
  then have j: "\<forall>c\<in>set (py_join [32] buf). \<not> is_linebreak c"
    using join_nobreak by blast
  have "set (wrap_lines t m) \<subseteq> set lines \<union> {py_join [32] buf}"
    using r by (auto simp: wrap_lines_def)
  with a inv j show ?thesis by blast
qed

lemma join_two_breaks:
  assumes "\<forall>l\<in>set ls. \<forall>c\<in>set l. \<not> is_linebreak c" and "length ls \<le> 2"
  shows "length (filter is_linebreak (py_join [10] ls)) \<le> 1"
proof (cases ls)
  case Nil then show ?thesis by simp
next
  case (Cons a as)
  note ls = this
  show ?thesis
  proof (cases as)
    case Nil with ls assms show ?thesis by simp
  next
    case (Cons b bs)
    with assms ls have "bs = []" by simp
    with Cons assms ls show ?thesis by simp
  qed
qed

text \<open>
  Claim C3.  For every input string and every character budget, the wrapped text has at
  most two lines: it contains at most one line-break character, the one \<open>wrap\<close> puts
  between its first two lines.
\<close>

theorem wrap_at_most_two_lines:
  "length (filter is_linebreak (wrap t max_chars)) \<le> 1"
proof -
  have "\<forall>l\<in>set (take 2 (wrap_lines t max_chars)). \<forall>c\<in>set l. \<not> is_linebreak c"
    using wrap_lines_nobreak by (meson in_set_takeD)
  then show ?thesis
    unfolding wrap_def by (rule join_two_breaks) simp
qed

lemma fits_buf_cost: "fits m buf w \<longleftrightarrow> \<not> buf_cost buf w > m"
  by (auto simp: fits_def buf_cost_def)

lemma wrap_loop_greedy:
  "wrap_loop m ws (lines, buf) = (lines', buf') \<Longrightarrow>
   lines' @ [py_join [32] buf'] = lines @ map (py_join [32]) (greedy_lines m buf ws)"
proof (induction ws arbitrary: lines buf)
  case Nil
  then show ?case by simp
next
  case (Cons w ws)
  show ?case
  proof (cases "buf_cost buf w > m")
    case True
    then have "wrap_loop m ws (lines @ [py_join [32] buf], [w]) = (lines', buf')"
      using Cons.prems by simp
    from Cons.IH[OF this] True show ?thesis by (simp add: fits_buf_cost)
  next
    case False
    then have "wrap_loop m ws (lines, buf @ [w]) = (lines', buf')"
      using Cons.prems by simp
    from Cons.IH[OF this] False show ?thesis by (simp add: fits_buf_cost)
  qed
qed

lemma wrap_loop_buf_nonempty:
  "ws \<noteq> [] \<or> buf \<noteq> [] \<Longrightarrow> snd (wrap_loop m ws (lines, buf)) \<noteq> []"
  by (induction ws arbitrary: lines buf) auto

lemma isspace_whitespace_points: "isspace c \<longleftrightarrow> c \<in> set whitespace_points"
proof
  assume a: "isspace c"
  have r1: "9 \<le> c \<and> c \<le> 13 \<Longrightarrow> c = 9 \<or> c = 10 \<or> c = 11 \<or> c = 12 \<or> c = 13"
    by arith
  have r2: "28 \<le> c \<and> c \<le> 32 \<Longrightarrow> c = 28 \<or> c = 29 \<or> c = 30 \<or> c = 31 \<or> c = 32"
    by arith
  have r3: "8192 \<le> c \<and> c \<le> 8202 \<Longrightarrow>
        c = 8192 \<or> c = 8193 \<or> c = 8194 \<or> c = 8195 \<or> c = 8196 \<or> c = 8197 \<or> c = 8198
        \<or> c = 8199 \<or> c = 8200 \<or> c = 8201 \<or> c = 8202"
    by arith
  from a r1 r2 r3 show "c \<in> set whitespace_points"
    unfolding isspace_def whitespace_points_def list.set insert_iff by blast
next
  assume "c \<in> set whitespace_points"
  then show "isspace c"
    unfolding isspace_def whitespace_points_def by auto
qed

lemma pieces_nonempty: "pieces t \<noteq> []"
  by (induction t) (auto split: list.splits)

lemma split_from_pieces:
  "split_from cur t = filter (\<lambda>w. w \<noteq> []) ((cur @ hd (pieces t)) # tl (pieces t))"
proof (induction t arbitrary: cur)
  case Nil
  show ?case by simp
next
  case (Cons c cs)
  obtain p ps where p: "pieces cs = p # ps"
    using pieces_nonempty[of cs] by (cases "pieces cs") auto
  show ?case
  proof (cases "isspace c")
    case True
    then have w: "c \<in> set whitespace_points" using isspace_whitespace_points by blast
    have l: "split_from cur (c # cs) = (if cur = [] then split_from [] cs else cur # split_from [] cs)"
      using True by simp
    have r: "pieces (c # cs) = [] # pieces cs" using w by simp
    have "split_from [] cs = filter (\<lambda>w. w \<noteq> []) (pieces cs)"
      using Cons.IH[of "[]"] p by simp
    then show ?thesis unfolding l r by simp
  next
    case False
    then have w: "c \<notin> set whitespace_points" using isspace_whitespace_points by blast
    have l: "split_from cur (c # cs) = split_from (cur @ [c]) cs"
      using False by simp
    have r: "pieces (c # cs) = (c # p) # ps" using w p by simp
    have "split_from (cur @ [c]) cs = filter (\<lambda>w. w \<noteq> []) ((cur @ c # p) # ps)"
      using Cons.IH[of "cur @ [c]"] p by simp
    then show ?thesis unfolding l r by simp
  qed
qed

lemma py_split_words_of: "py_split t = words_of t"
proof -
  obtain p ps where p: "pieces t = p # ps"
    using pieces_nonempty[of t] by (cases "pieces t") auto
  show ?thesis
    unfolding py_split_def words_of_def split_from_pieces by (simp add: p)
qed

lemma py_join_separated: "py_join [sep] xs = separated sep xs"
proof (induction "[sep]" xs rule: py_join.induct)
  case 1
  show ?case by (simp add: separated_def)
next
  case (2 x)
  show ?case by (simp add: separated_def)
next
  case (3 x y ys)
  then show ?case by (simp add: separated_def)
qed

lemma py_join_separated_fun: "py_join [sep] = separated sep"
  by (rule ext) (rule py_join_separated)

text \<open>
  Claim C4.  \<open>wrap\<close> computes exactly the greedy wrap of the specification, for every
  input and every budget: the words are the non-empty pieces between whitespace, a
  word joins the current line exactly when the line's word lengths, its separators and
  the word's length stay within the budget, and the first two lines are joined by a
  line break.  Three runs show it: a title of the catalog, a text with a tab, a line
  feed and double spaces that wraps to more than two lines, and the empty text.
\<close>

theorem wrap_is_greedy_wrap:
  "wrap t max_chars = greedy_wrap t max_chars
   \<and> wrap (ascii ''How to Build a Python GUI Like YouTube'') 24 =
       ascii ''How to Build a Python GUI'' @ [10] @ ascii ''Like YouTube''
   \<and> wrap (ascii ''aa'' @ [9] @ ascii ''bb'' @ [10, 32] @ ascii ''cc  dd ee'') 5 =
       ascii ''aa bb'' @ [10] @ ascii ''cc dd''
   \<and> wrap [] 24 = []"
proof -
  have eq: "wrap t max_chars = greedy_wrap t max_chars"
  proof (cases "py_split t = []")
    case True
    then have "words_of t = []" by (simp only: py_split_words_of)
    with True show ?thesis
      by (simp add: wrap_def wrap_lines_def greedy_wrap_def separated_def)
  next
    case False
    obtain lines buf where r: "wrap_loop max_chars (py_split t) ([], []) = (lines, buf)"
      by (cases "wrap_loop max_chars (py_split t) ([], [])") auto
    have "buf \<noteq> []"
      using wrap_loop_buf_nonempty[of "py_split t" "[]" max_chars "[]"] False r by simp
    then have "wrap_lines t max_chars = lines @ [py_join [32] buf]"
      using r by (simp add: wrap_lines_def)
    also have "\<dots> = map (py_join [32]) (greedy_lines max_chars [] (py_split t))"
      using wrap_loop_greedy[OF r] by simp
    also have "\<dots> = map (separated 32) (greedy_lines max_chars [] (words_of t))"
      by (simp only: py_split_words_of py_join_separated_fun)
    finally show ?thesis
      by (simp only: wrap_def greedy_wrap_def py_join_separated)
  qed
  have e1: "wrap (ascii ''How to Build a Python GUI Like YouTube'') 24 =
       ascii ''How to Build a Python GUI'' @ [10] @ ascii ''Like YouTube''"
    by (simp add: wrap_def wrap_lines_def py_split_def ascii_def isspace_def buf_cost_def)
  have e2: "wrap (ascii ''aa'' @ [9] @ ascii ''bb'' @ [10, 32] @ ascii ''cc  dd ee'') 5 =
       ascii ''aa bb'' @ [10] @ ascii ''cc dd''"
    by (simp add: wrap_def wrap_lines_def py_split_def ascii_def isspace_def buf_cost_def)
  have e3: "wrap [] 24 = []"
    by (simp add: wrap_def wrap_lines_def py_split_def)
  from eq e1 e2 e3 show ?thesis by blast
qed

lemma wrap_loop_take_lines:
  "n \<le> length lines \<Longrightarrow> take n (fst (wrap_loop m ws (lines, buf))) = take n lines"
  by (induction ws arbitrary: lines buf) auto

text \<open>
  Claim C10.  A first word longer than \<open>max_chars + 1\<close> is never split: the output is an
  empty first line, a line break, and the word itself, whole, as the second line.
\<close>

theorem wrap_overlong_first_word:
  assumes "py_split t = w # ws" and "int (length w) > max_chars + 1"
  shows "wrap t max_chars = 10 # w"
proof (cases ws)
  case Nil
  with assms show ?thesis
    by (simp add: wrap_def wrap_lines_def buf_cost_def)
next
  case (Cons w2 ws2)
  have c1: "buf_cost [] w > max_chars" using assms(2) by (simp add: buf_cost_def)
  have c2: "buf_cost [w] w2 > max_chars" using assms(2) by (simp add: buf_cost_def)
  obtain lines buf where r: "wrap_loop max_chars ws2 ([[], w], [w2]) = (lines, buf)"
    by (cases "wrap_loop max_chars ws2 ([[], w], [w2])") auto
  have m: "take 2 lines = [[], w]"
    using wrap_loop_take_lines[of 2 "[[], w]" max_chars ws2 "[w2]"] r by simp
  have "wrap_loop max_chars (py_split t) ([], []) = (lines, buf)"
    using assms(1) Cons c1 c2 r by simp
  moreover have "2 \<le> length lines"
    proof -
    have "length (take 2 lines) = 2" using m by simp
    then show ?thesis by simp
  qed
  ultimately have "take 2 (wrap_lines t max_chars) = [[], w]"
    using m by (simp add: wrap_lines_def)
  then show ?thesis by (simp add: wrap_def)
qed

theorem wrap_overlong_first_word_witness:
  "py_split (ascii ''Supercalifragilistic yes'') = [ascii ''Supercalifragilistic'', ascii ''yes'']
   \<and> int (length (ascii ''Supercalifragilistic'')) > 5 + 1
   \<and> wrap (ascii ''Supercalifragilistic yes'') 5 = 10 # ascii ''Supercalifragilistic''"
proof -
  have s: "py_split (ascii ''Supercalifragilistic yes'') = ascii ''Supercalifragilistic'' # [ascii ''yes'']"
    by (simp add: py_split_def ascii_def isspace_def)
  have l: "int (length (ascii ''Supercalifragilistic'')) > 5 + 1" by (simp add: ascii_def)
  from wrap_overlong_first_word[OF s l] s l show ?thesis by blast
qed


section \<open>Properties of the float operations\<close>

lemma bit_length_0: "bit_length 0 = 0"
  by (simp add: bit_length.simps)

lemma bit_length_1: "bit_length 1 = 1"
  by (simp add: bit_length.simps)

lemma bit_length_numeral: "bit_length (numeral k) = 1 + bit_length (numeral k div 2)"
  by (subst bit_length.simps) simp

lemmas fl_eval = bit_length_0 bit_length_1 bit_length_numeral binade_def round_double_def
  nearest_double_def round_half_even_def truediv_def float_of_int_def py_bind_def Let_def

lemmas str_eval = py_str_def str_nat.simps digit_char_def

lemma bit_length_nonneg: "0 \<le> bit_length n"
proof (induction n rule: bit_length.induct)
  case (1 n)
  show ?case
  proof (cases "n \<le> 0")
    case True
    then show ?thesis by (simp add: bit_length.simps[of n])
  next
    case False
    with 1 have "0 \<le> bit_length (n div 2)" by simp
    with False show ?thesis by (simp add: bit_length.simps[of n])
  qed
qed

lemma bit_length_pos: "0 < n \<Longrightarrow> 1 \<le> bit_length n"
  using bit_length_nonneg[of "n div 2"] by (simp add: bit_length.simps[of n])

lemma bit_length_bounds:
  "0 < n \<Longrightarrow> 2 ^ nat (bit_length n - 1) \<le> n \<and> n < 2 ^ nat (bit_length n)"
proof (induction n rule: bit_length.induct)
  case (1 n)
  show ?case
  proof (cases "n div 2 \<le> 0")
    case True
    with 1(2) have "n = 1" by presburger
    then show ?thesis by (simp add: bit_length.simps[of 1] bit_length.simps[of 0])
  next
    case False
    then have h: "0 < n div 2" by simp
    have ih: "2 ^ nat (bit_length (n div 2) - 1) \<le> n div 2 \<and> n div 2 < 2 ^ nat (bit_length (n div 2))"
      using 1 h by simp
    have b: "1 \<le> bit_length (n div 2)" using h by (rule bit_length_pos)
    have e: "bit_length n = 1 + bit_length (n div 2)" using 1(2) by (simp add: bit_length.simps[of n])
    have p1: "(2::int) ^ nat (bit_length n - 1) = 2 * 2 ^ nat (bit_length (n div 2) - 1)"
    proof -
      have "nat (bit_length n - 1) = Suc (nat (bit_length (n div 2) - 1))" using e b by simp
      then show ?thesis by simp
    qed
    have p2: "(2::int) ^ nat (bit_length n) = 2 * 2 ^ nat (bit_length (n div 2))"
    proof -
      have "nat (bit_length n) = Suc (nat (bit_length (n div 2)))" using e b by simp
      then show ?thesis by simp
    qed
    have "2 * (n div 2) \<le> n" "n \<le> 2 * (n div 2) + 1" by presburger+
    with ih show ?thesis unfolding p1 p2 by linarith
  qed
qed

lemma rhe_cases:
  assumes "0 < Q"
  shows "round_half_even P Q = P div Q \<or> round_half_even P Q = P div Q + 1"
  by (simp add: round_half_even_def Let_def)

lemma rhe_lt:
  assumes "0 < Q" and "2 * P < (2 * N - 1) * Q"
  shows "round_half_even P Q < N"
proof -
  define f r where "f = P div Q" and "r = P mod Q"
  define A B where "A = N * Q" and "B = f * Q"
  have P: "P = B + r" and r: "0 \<le> r" "r < Q"
    using assms(1) by (simp_all add: f_def r_def B_def)
  have h: "2 * P < 2 * A - Q" using assms(2) by (simp add: A_def algebra_simps)
  have "f < N"
  proof (rule ccontr)
    assume "\<not> f < N"
    then have "A \<le> B" unfolding A_def B_def using assms(1) by (simp add: mult_right_mono)
    with P r h assms(1) show False by linarith
  qed
  show ?thesis
  proof (cases "f = N - 1")
    case True
    then have "N = f + 1" by simp
    then have "B = A - Q" by (simp add: A_def B_def algebra_simps)
    with P h have "2 * r < Q" by linarith
    then have "round_half_even P Q = f"
      by (simp add: round_half_even_def Let_def f_def r_def)
    with True show ?thesis by simp
  next
    case False
    with \<open>f < N\<close> have "f + 1 < N" by simp
    with rhe_cases[OF assms(1), of P] show ?thesis by (auto simp: f_def)
  qed
qed

lemma rhe_ge:
  assumes "0 < Q" and "(2 * N - 1) * Q \<le> 2 * P" and "even N"
  shows "N \<le> round_half_even P Q"
proof -
  define f r where "f = P div Q" and "r = P mod Q"
  define A B where "A = N * Q" and "B = f * Q"
  have P: "P = B + r" and r: "0 \<le> r" "r < Q"
    using assms(1) by (simp_all add: f_def r_def B_def)
  have h: "2 * A - Q \<le> 2 * P" using assms(2) by (simp add: A_def algebra_simps)
  have "N - 1 \<le> f"
  proof (rule ccontr)
    assume "\<not> N - 1 \<le> f"
    then have "f + 2 \<le> N" by simp
    then have "(f + 2) * Q \<le> N * Q" using assms(1) by (simp only: mult_right_mono)
    then have "B + 2 * Q \<le> A" by (simp add: A_def B_def algebra_simps)
    with P r h assms(1) show False by linarith
  qed
  show ?thesis
  proof (cases "f = N - 1")
    case True
    then have "N = f + 1" by simp
    then have "B = A - Q" by (simp add: A_def B_def algebra_simps)
    with P h have q: "Q \<le> 2 * r" by linarith
    have "odd f" using True assms(3) by simp
    with q have "round_half_even P Q = f + 1"
      by (simp add: round_half_even_def Let_def f_def r_def)
    with True show ?thesis by simp
  next
    case False
    with \<open>N - 1 \<le> f\<close> have "N \<le> f" by simp
    with rhe_cases[OF assms(1), of P] show ?thesis by (auto simp: f_def)
  qed
qed

lemma bit_length_mono:
  assumes "0 < q" and "q \<le> p"
  shows "bit_length q \<le> bit_length p"
proof -
  have "0 < p" using assms by simp
  from bit_length_bounds[OF assms(1)] bit_length_bounds[OF this] assms(2)
  have "(2::int) ^ nat (bit_length q - 1) < 2 ^ nat (bit_length p)" by linarith
  then have "nat (bit_length q - 1) < nat (bit_length p)" by simp
  then show ?thesis by linarith
qed

lemma binade_ge:
  assumes "0 < q" and "q \<le> p"
  shows "0 \<le> binade p q \<and> q * 2 ^ nat (binade p q) \<le> p \<and> p < 2 * q * 2 ^ nat (binade p q)"
proof -
  define a b d where "a = bit_length p" and "b = bit_length q" and "d = a - b"
  have p0: "0 < p" using assms by simp
  have bp: "2 ^ nat (a - 1) \<le> p" "p < 2 ^ nat a" and a1: "1 \<le> a"
    using bit_length_bounds[OF p0] bit_length_pos[OF p0] by (simp_all add: a_def)
  have bq: "2 ^ nat (b - 1) \<le> q" "q < 2 ^ nat b" and b1: "1 \<le> b"
    using bit_length_bounds[OF assms(1)] bit_length_pos[OF assms(1)] by (simp_all add: b_def)
  have d0: "0 \<le> d" using bit_length_mono[OF assms] by (simp add: d_def a_def b_def)
  have nd: "nat (- d) = 0" using d0 by simp
  show ?thesis
  proof (cases "q * 2 ^ nat d \<le> p")
    case True
    then have k: "binade p q = d"
      by (simp add: binade_def Let_def a_def[symmetric] b_def[symmetric] d_def[symmetric] nd)
    have "(2::int) ^ nat a = 2 * 2 ^ nat (b - 1) * 2 ^ nat d"
    proof -
      have "nat a = Suc (nat (b - 1) + nat d)" using a1 b1 d0 by (simp add: d_def)
      then show ?thesis by (simp add: power_add)
    qed
    also have "\<dots> \<le> 2 * q * 2 ^ nat d" using bq(1) by (simp add: mult_right_mono)
    finally have "p < 2 * q * 2 ^ nat d" using bp(2) by simp
    with True d0 k show ?thesis by simp
  next
    case False
    then have k: "binade p q = d - 1"
      by (simp add: binade_def Let_def a_def[symmetric] b_def[symmetric] d_def[symmetric] nd)
    have d1: "1 \<le> d"
    proof (rule ccontr)
      assume "\<not> 1 \<le> d"
      with d0 have "d = 0" by simp
      with False assms(2) show False by simp
    qed
    have s: "nat d = Suc (nat (d - 1))" using d1 by simp
    have up: "p < 2 * q * 2 ^ nat (d - 1)" using False by (simp add: s)
    have "q * 2 ^ nat (d - 1) \<le> 2 ^ nat b * 2 ^ nat (d - 1)"
      using bq(2) by (simp add: mult_right_mono)
    also have "\<dots> = 2 ^ nat (a - 1)"
    proof -
      have "nat (a - 1) = nat b + nat (d - 1)" using a1 b1 d1 by (simp add: d_def)
      then show ?thesis by (simp add: power_add)
    qed
    finally have "q * 2 ^ nat (d - 1) \<le> p" using bp(1) by simp
    with up d1 k show ?thesis by simp
  qed
qed

lemma binade_less:
  assumes "0 < q" and "q \<le> p" and "p < q * 2 ^ n"
  shows "binade p q < int n"
proof -
  from binade_ge[OF assms(1,2)] have k: "0 \<le> binade p q" "q * 2 ^ nat (binade p q) \<le> p" by simp_all
  with assms(3) have "q * 2 ^ nat (binade p q) < q * 2 ^ n" by simp
  with assms(1) have "(2::int) ^ nat (binade p q) < 2 ^ n" by simp
  then have "nat (binade p q) < n" by simp
  with k(1) show ?thesis by simp
qed

lemma binade_at_least:
  assumes "0 < q" and "q \<le> p" and "q * 2 ^ n \<le> p"
  shows "int n \<le> binade p q"
proof -
  from binade_ge[OF assms(1,2)] have k: "0 \<le> binade p q" "p < 2 * q * 2 ^ nat (binade p q)" by simp_all
  with assms(3) have "q * 2 ^ n < q * 2 ^ Suc (nat (binade p q))" by simp
  with assms(1) have "(2::int) ^ n < 2 ^ Suc (nat (binade p q))" by (simp only: mult_less_cancel_left_pos)
  then have "n < Suc (nat (binade p q))" by (simp only: power_strict_increasing_iff one_less_numeral_iff semiring_norm)
  with k(1) show ?thesis by simp
qed

lemma round_double_ge1:
  assumes "0 < q" and "q \<le> p"
  shows "round_double p q =
           (round_half_even (p * 2 ^ nat (52 - binade p q)) (q * 2 ^ nat (binade p q - 52)), binade p q - 52)"
proof -
  have "0 \<le> binade p q" using binade_ge[OF assms] by simp
  then have "max (binade p q - 52) (- 1074) = binade p q - 52" by simp
  moreover have "p \<noteq> 0" using assms by simp
  ultimately show ?thesis by (simp add: round_double_def Let_def)
qed

lemma nearest_double_ge1:
  assumes "0 < q" and "q \<le> p"
  shows "nearest_double p q =
           (if p < q * double_overflow
            then Finite (round_half_even (p * 2 ^ nat (52 - binade p q)) (q * 2 ^ nat (binade p q - 52)))
                        (binade p q - 52)
            else PosInf)"
proof -
  define k where "k = binade p q"
  define m where "m = round_half_even (p * 2 ^ nat (52 - k)) (q * 2 ^ nat (k - 52))"
  have rd: "round_double \<bar>p\<bar> q = (m, k - 52)"
    using round_double_ge1[OF assms] assms by (simp add: m_def k_def)
  have p0: "\<not> p < 0" "sgn p = 1" using assms by simp_all
  have nd: "nearest_double p q = (if k - 52 > 971 \<or> (k - 52 = 971 \<and> m \<ge> 2 ^ 53) then PosInf else Finite m (k - 52))"
    by (simp add: nearest_double_def rd p0)
  have T2: "2 * (q * double_overflow) = (2 * 2 ^ 53 - 1) * (q * 2 ^ 971)"
    by (simp add: double_overflow_def)
  show ?thesis
  proof (cases "p < q * double_overflow")
    case True
    have "q * double_overflow \<le> q * 2 ^ 1024"
      using assms(1) by (simp add: double_overflow_def)
    with True have "p < q * 2 ^ 1024" by linarith
    then have k1: "k < 1024" using binade_less[OF assms, of 1024] by (simp add: k_def)
    have "\<not> (k - 52 = 971 \<and> m \<ge> 2 ^ 53)"
    proof
      assume a: "k - 52 = 971 \<and> m \<ge> 2 ^ 53"
      then have m': "m = round_half_even p (q * 2 ^ 971)" by (simp add: m_def)
      have h1: "2 * p < (2 * 2 ^ 53 - 1) * (q * 2 ^ 971)" using True T2 by linarith
      have h2: "0 < q * 2 ^ 971" using assms(1) by simp
      have "round_half_even p (q * 2 ^ 971) < 2 ^ 53" by (rule rhe_lt[OF h2 h1])
      with a m' show False by simp
    qed
    with k1 True nd show ?thesis by (simp add: m_def k_def)
  next
    case False
    have "q * 2 ^ 1023 \<le> q * double_overflow"
      using assms(1) by (simp add: double_overflow_def)
    with False have "q * 2 ^ 1023 \<le> p" by linarith
    then have k1: "1023 \<le> k" using binade_at_least[OF assms, of 1023] by (simp add: k_def)
    have "k - 52 > 971 \<or> (k - 52 = 971 \<and> m \<ge> 2 ^ 53)"
    proof (cases "k = 1023")
      case True
      then have m': "m = round_half_even p (q * 2 ^ 971)" by (simp add: m_def)
      have h1: "(2 * 2 ^ 53 - 1) * (q * 2 ^ 971) \<le> 2 * p" using False T2 by linarith
      have h2: "0 < q * 2 ^ 971" using assms(1) by simp
      have h3: "even ((2::int) ^ 53)" by simp
      have "2 ^ 53 \<le> round_half_even p (q * 2 ^ 971)" by (rule rhe_ge[OF h2 h1 h3])
      with True m' show ?thesis by simp
    next
      case False
      with k1 show ?thesis by simp
    qed
    with False nd show ?thesis by simp
  qed
qed

lemma truediv_pos:
  assumes "0 < b" and "b \<le> a"
  shows "truediv a b =
           (if a < b * double_overflow
            then Inr (Finite (round_half_even (a * 2 ^ nat (52 - binade a b)) (b * 2 ^ nat (binade a b - 52)))
                             (binade a b - 52))
            else Inl OverflowError)"
proof -
  have "b \<noteq> 0" "sgn b = 1" "\<bar>b\<bar> = b" using assms(1) by simp_all
  then show ?thesis
    by (simp add: truediv_def nearest_double_ge1[OF assms])
qed

section \<open>Properties of the formatter\<close>

text \<open>
  Claim C5, as amended.  For a count from 0 to 999 \<open>fmt_views\<close> returns the count and
  \<open>views\<close>; from 1000 on, the count divided by 1000 as a float, printed with one decimal,
  and \<open>K views\<close>; from 1000000 on, the count divided by 1000000, printed with one
  decimal, and \<open>M views\<close>, as long as the count is below \<open>1000000 * (2 ^ 1024 - 2 ^ 970)\<close>.
  From that count on the division overflows and \<open>fmt_views\<close> raises \<open>OverflowError\<close>.
  The three examples of the specification hold.
\<close>

theorem fmt_views_cases:
  "(0 \<le> v \<and> v < 1000 \<longrightarrow> fmt_views v = Inr (py_str v @ '' views''))
   \<and> (1000 \<le> v \<and> v < 1000000 \<longrightarrow>
        (\<exists>x. truediv v 1000 = Inr x \<and> fmt_views v = Inr (format_1f x @ ''K views'')))
   \<and> (1000000 \<le> v \<and> v < 1000000 * double_overflow \<longrightarrow>
        (\<exists>x. truediv v 1000000 = Inr x \<and> fmt_views v = Inr (format_1f x @ ''M views'')))
   \<and> (1000000 * double_overflow \<le> v \<longrightarrow> fmt_views v = Inl OverflowError)
   \<and> fmt_views 999 = Inr ''999 views''
   \<and> fmt_views 1500 = Inr ''1.5K views''
   \<and> fmt_views 2500000 = Inr ''2.5M views''"
proof -
  have a: "0 \<le> v \<and> v < 1000 \<longrightarrow> fmt_views v = Inr (py_str v @ '' views'')"
    by (simp add: fmt_views_def)
  have b: "1000 \<le> v \<and> v < 1000000 \<longrightarrow>
        (\<exists>x. truediv v 1000 = Inr x \<and> fmt_views v = Inr (format_1f x @ ''K views''))"
  proof
    assume h: "1000 \<le> v \<and> v < 1000000"
    then have "v < 1000 * double_overflow" by (simp add: double_overflow_def)
    then obtain x where x: "truediv v 1000 = Inr x"
      using truediv_pos[of 1000 v] h by simp
    with h have "fmt_views v = Inr (format_1f x @ ''K views'')"
      by (simp add: fmt_views_def py_bind_def)
    with x show "\<exists>x. truediv v 1000 = Inr x \<and> fmt_views v = Inr (format_1f x @ ''K views'')"
      by blast
  qed
  have c: "1000000 \<le> v \<and> v < 1000000 * double_overflow \<longrightarrow>
        (\<exists>x. truediv v 1000000 = Inr x \<and> fmt_views v = Inr (format_1f x @ ''M views''))"
  proof
    assume h: "1000000 \<le> v \<and> v < 1000000 * double_overflow"
    then obtain x where x: "truediv v 1000000 = Inr x"
      using truediv_pos[of 1000000 v] by simp
    with h have "fmt_views v = Inr (format_1f x @ ''M views'')"
      by (simp add: fmt_views_def py_bind_def)
    with x show "\<exists>x. truediv v 1000000 = Inr x \<and> fmt_views v = Inr (format_1f x @ ''M views'')"
      by blast
  qed
  have d: "1000000 * double_overflow \<le> v \<longrightarrow> fmt_views v = Inl OverflowError"
  proof
    assume h: "1000000 * double_overflow \<le> v"
    have "(1000000::int) \<le> 1000000 * double_overflow" by (simp add: double_overflow_def)
    with h have v: "1000000 \<le> v" by linarith
    then have "truediv v 1000000 = Inl OverflowError"
      using truediv_pos[of 1000000 v] h by simp
    with v show "fmt_views v = Inl OverflowError"
      by (simp add: fmt_views_def py_bind_def)
  qed
  have e1: "fmt_views 999 = Inr ''999 views''"
    by (simp add: fmt_views_def fl_eval str_eval)
  have e2: "fmt_views 1500 = Inr ''1.5K views''"
    by (simp add: fmt_views_def fl_eval str_eval)
  have e3: "fmt_views 2500000 = Inr ''2.5M views''"
    by (simp add: fmt_views_def fl_eval str_eval)
  from a b c d e1 e2 e3 show ?thesis by blast
qed

theorem fmt_views_cases_witness:
  "(1000::int) \<le> 1500 \<and> (1500::int) < 1000000
   \<and> (\<exists>x. truediv 1500 1000 = Inr x \<and> fmt_views 1500 = Inr (format_1f x @ ''K views''))"
proof -
  have h: "(1000::int) \<le> 1500 \<and> (1500::int) < 1000000" by simp
  have "(1000::int) \<le> 1500 \<and> (1500::int) < 1000000 \<longrightarrow>
        (\<exists>x. truediv 1500 1000 = Inr x \<and> fmt_views 1500 = Inr (format_1f x @ ''K views''))"
    using fmt_views_cases [of 1500] by (rule conjunct1[OF conjunct2])
  with h show ?thesis by blast
qed

text \<open>
  The claim as stated fails for a count that is too large for the float division:
  \<open>fmt_views\<close> returns no text there.
\<close>

theorem fmt_views_overflow_counterexample:
  "fmt_views (1000000 * 2 ^ 1024) = Inl OverflowError"
  by (simp add: fmt_views_def fl_eval)



section \<open>Properties of the colour variants\<close>

lemma lit_1_05_eq [code]: "lit_1_05 = Finite 4728779608739021 (- 52)"
  by (simp add: lit_1_05_def fl_eval)

lemma lit_0_92_eq [code]: "lit_0_92 = Finite 8286623314361713 (- 53)"
  by (simp add: lit_0_92_def fl_eval)

lemma lit_0_16_eq [code]: "lit_0_16 = Finite 5764607523034235 (- 55)"
  by (simp add: lit_0_16_def fl_eval)

lemma lit_0_20_eq [code]: "lit_0_20 = Finite 7205759403792794 (- 55)"
  by (simp add: lit_0_20_def fl_eval)

text \<open>
  The two variants on every channel value from 0 to 255, evaluated through the float
  product and the truncation, against the integer quotient.
\<close>

lemma alt1_enum_0:
  "list_all (\<lambda>c. alt1_channel c = Inr (min 255 (max 0 ((c * 105) div 100)))) [0..31]"
  by code_simp

lemma alt1_enum_32:
  "list_all (\<lambda>c. alt1_channel c = Inr (min 255 (max 0 ((c * 105) div 100)))) [32..63]"
  by code_simp

lemma alt1_enum_64:
  "list_all (\<lambda>c. alt1_channel c = Inr (min 255 (max 0 ((c * 105) div 100)))) [64..95]"
  by code_simp

lemma alt1_enum_96:
  "list_all (\<lambda>c. alt1_channel c = Inr (min 255 (max 0 ((c * 105) div 100)))) [96..127]"
  by code_simp

lemma alt1_enum_128:
  "list_all (\<lambda>c. alt1_channel c = Inr (min 255 (max 0 ((c * 105) div 100)))) [128..159]"
  by code_simp

lemma alt1_enum_160:
  "list_all (\<lambda>c. alt1_channel c = Inr (min 255 (max 0 ((c * 105) div 100)))) [160..191]"
  by code_simp

lemma alt1_enum_192:
  "list_all (\<lambda>c. alt1_channel c = Inr (min 255 (max 0 ((c * 105) div 100)))) [192..223]"
  by code_simp

lemma alt1_enum_224:
  "list_all (\<lambda>c. alt1_channel c = Inr (min 255 (max 0 ((c * 105) div 100)))) [224..255]"
  by code_simp

lemma alt2_enum_0:
  "list_all (\<lambda>c. alt2_channel c = Inr (min 255 (max 0 ((c * 92) div 100)))) [0..31]"
  by code_simp

lemma alt2_enum_32:
  "list_all (\<lambda>c. alt2_channel c = Inr (min 255 (max 0 ((c * 92) div 100)))) [32..63]"
  by code_simp

lemma alt2_enum_64:
  "list_all (\<lambda>c. alt2_channel c = Inr (min 255 (max 0 ((c * 92) div 100)))) [64..95]"
  by code_simp

lemma alt2_enum_96:
  "list_all (\<lambda>c. alt2_channel c = Inr (min 255 (max 0 ((c * 92) div 100)))) [96..127]"
  by code_simp

lemma alt2_enum_128:
  "list_all (\<lambda>c. alt2_channel c = Inr (min 255 (max 0 ((c * 92) div 100)))) [128..159]"
  by code_simp

lemma alt2_enum_160:
  "list_all (\<lambda>c. alt2_channel c = Inr (min 255 (max 0 ((c * 92) div 100)))) [160..191]"
  by code_simp

lemma alt2_enum_192:
  "list_all (\<lambda>c. alt2_channel c = Inr (min 255 (max 0 ((c * 92) div 100)))) [192..223]"
  by code_simp

lemma alt2_enum_224:
  "list_all (\<lambda>c. alt2_channel c = Inr (min 255 (max 0 ((c * 92) div 100)))) [224..255]"
  by code_simp

lemma alt1_channel_byte:
  assumes "0 \<le> c" and "c \<le> 255"
  shows "alt1_channel c = Inr (min 255 (max 0 ((c * 105) div 100)))"
proof -
  have "c \<in> set [0..31] \<or> c \<in> set [32..63] \<or> c \<in> set [64..95] \<or> c \<in> set [96..127]
      \<or> c \<in> set [128..159] \<or> c \<in> set [160..191] \<or> c \<in> set [192..223] \<or> c \<in> set [224..255]"
    using assms unfolding set_upto atLeastAtMost_iff by arith
  then show ?thesis
    using alt1_enum_0 alt1_enum_32 alt1_enum_64 alt1_enum_96 alt1_enum_128 alt1_enum_160 alt1_enum_192 alt1_enum_224
    unfolding list_all_iff by blast
qed

lemma alt2_channel_byte:
  assumes "0 \<le> c" and "c \<le> 255"
  shows "alt2_channel c = Inr (min 255 (max 0 ((c * 92) div 100)))"
proof -
  have "c \<in> set [0..31] \<or> c \<in> set [32..63] \<or> c \<in> set [64..95] \<or> c \<in> set [96..127]
      \<or> c \<in> set [128..159] \<or> c \<in> set [160..191] \<or> c \<in> set [192..223] \<or> c \<in> set [224..255]"
    using assms unfolding set_upto atLeastAtMost_iff by arith
  then show ?thesis
    using alt2_enum_0 alt2_enum_32 alt2_enum_64 alt2_enum_96 alt2_enum_128 alt2_enum_160 alt2_enum_192 alt2_enum_224
    unfolding list_all_iff by blast
qed

lemma floor_min_rat: "\<lfloor>min (x::rat) y\<rfloor> = min \<lfloor>x\<rfloor> \<lfloor>y\<rfloor>"
proof (cases "x \<le> y")
  case True
  then have "\<lfloor>x\<rfloor> \<le> \<lfloor>y\<rfloor>" by (rule floor_mono)
  with True show ?thesis by (simp add: min_def)
next
  case False
  then have "y \<le> x" by simp
  then have "\<lfloor>y\<rfloor> \<le> \<lfloor>x\<rfloor>" by (rule floor_mono)
  with False show ?thesis by (simp add: min_def)
qed

lemma floor_max_rat: "\<lfloor>max (x::rat) y\<rfloor> = max \<lfloor>x\<rfloor> \<lfloor>y\<rfloor>"
proof (cases "x \<le> y")
  case True
  then have "\<lfloor>x\<rfloor> \<le> \<lfloor>y\<rfloor>" by (rule floor_mono)
  with True show ?thesis by (simp add: max_def)
next
  case False
  then have "y \<le> x" by simp
  then have "\<lfloor>y\<rfloor> \<le> \<lfloor>x\<rfloor>" by (rule floor_mono)
  with False show ?thesis by (simp add: max_def)
qed

lemma spec_channel_int:
  "spec_channel c (of_int n / of_int d) = min 255 (max 0 ((c * n) div d))"
proof -
  have "\<lfloor>of_int c * (of_int n / of_int d) :: rat\<rfloor> = (c * n) div d"
    using floor_divide_of_int_eq[of "c * n" d, where ?'a = rat] by simp
  then show ?thesis
    unfolding spec_channel_def floor_min_rat floor_max_rat by simp
qed

lemma spec_channel_105: "spec_channel c (105 / 100) = min 255 (max 0 ((c * 105) div 100))"
  using spec_channel_int[of c 105 100] by simp

lemma spec_channel_92: "spec_channel c (92 / 100) = min 255 (max 0 ((c * 92) div 100))"
  using spec_channel_int[of c 92 100] by simp

lemma spec_channel_range: "0 \<le> spec_channel c f \<and> spec_channel c f \<le> 255"
proof -
  have "(0::rat) \<le> min 255 (max 0 (of_int c * f))" by simp
  then have l: "0 \<le> spec_channel c f" by (simp add: spec_channel_def)
  have "min 255 (max 0 (of_int c * f)) \<le> (255::rat)" by simp
  then have "\<lfloor>min 255 (max 0 (of_int c * f))\<rfloor> \<le> \<lfloor>255::rat\<rfloor>" by (rule floor_mono)
  then have "spec_channel c f \<le> 255" by (simp add: spec_channel_def)
  with l show ?thesis by simp
qed

text \<open>
  Claim C8.  For a base colour with channels from 0 to 255, each channel of the brighter
  variant (factor 1.05) and of the darker variant (factor 0.92) is the channel times
  the factor, clamped to the range from 0 to 255 and floored, so every derived channel
  lies in that range; brightening (250, 250, 250) gives (255, 255, 255).
\<close>

theorem color_variants_clamped:
  assumes "valid_color col"
  shows "alt1_color col = Inr (brighten col (105 / 100))
       \<and> alt2_color col = Inr (brighten col (92 / 100))
       \<and> valid_color (brighten col (105 / 100))
       \<and> valid_color (brighten col (92 / 100))
       \<and> alt1_color (250, 250, 250) = Inr (255, 255, 255)"
proof -
  obtain r g b where col: "col = (r, g, b)" by (cases col) auto
  have v: "0 \<le> r" "r \<le> 255" "0 \<le> g" "g \<le> 255" "0 \<le> b" "b \<le> 255"
    using assms by (simp_all add: col valid_color_def)
  have s1: "brighten col (105 / 100) =
      (min 255 (max 0 ((r * 105) div 100)), min 255 (max 0 ((g * 105) div 100)),
       min 255 (max 0 ((b * 105) div 100)))"
    by (simp only: col brighten_def spec_channel_105 prod.case)
  have s2: "brighten col (92 / 100) =
      (min 255 (max 0 ((r * 92) div 100)), min 255 (max 0 ((g * 92) div 100)),
       min 255 (max 0 ((b * 92) div 100)))"
    by (simp only: col brighten_def spec_channel_92 prod.case)
  have a1: "alt1_color col = Inr (brighten col (105 / 100))"
    unfolding s1
    using alt1_channel_byte[OF v(1,2)] alt1_channel_byte[OF v(3,4)] alt1_channel_byte[OF v(5,6)]
    by (simp add: col alt1_color_def py_bind_def)
  have a2: "alt2_color col = Inr (brighten col (92 / 100))"
    unfolding s2
    using alt2_channel_byte[OF v(1,2)] alt2_channel_byte[OF v(3,4)] alt2_channel_byte[OF v(5,6)]
    by (simp add: col alt2_color_def py_bind_def)
  have b1: "valid_color (brighten col f)" for f
    using spec_channel_range by (simp add: col brighten_def valid_color_def)
  have "alt1_channel 250 = Inr 255"
    using alt1_channel_byte[of 250] by simp
  then have e: "alt1_color (250, 250, 250) = Inr (255, 255, 255)"
    by (simp add: alt1_color_def py_bind_def)
  from a1 a2 b1 e show ?thesis by blast
qed

theorem color_variants_clamped_witness:
  "valid_color (250, 250, 250)
   \<and> alt1_color (250, 250, 250) = Inr (255, 255, 255)
   \<and> alt2_color (250, 250, 250) = Inr (230, 230, 230)"
proof -
  have v: "valid_color (250, 250, 250)" by (simp add: valid_color_def)
  have "brighten (250, 250, 250) (92 / 100) =
      (min 255 (max 0 ((250 * 92) div 100)), min 255 (max 0 ((250 * 92) div 100)),
       min 255 (max 0 ((250 * 92) div 100)))"
    by (simp only: brighten_def spec_channel_92 prod.case)
  then have b: "brighten (250, 250, 250) (92 / 100) = (230, 230, 230)" by simp
  note t = color_variants_clamped[OF v]
  have a1: "alt1_color (250, 250, 250) = Inr (255, 255, 255)"
    using t by blast
  have "alt2_color (250, 250, 250) = Inr (brighten (250, 250, 250) (92 / 100))"
    using t by blast
  then have a2: "alt2_color (250, 250, 250) = Inr (230, 230, 230)"
    by (simp only: b)
  from v a1 a2 show ?thesis by blast
qed

section \<open>Properties of the mock catalog\<close>

text \<open>The generator state after a list of draws.\<close>

lemma draw_all_append:
  "draw_all rb g (xs @ ys) = draw_all rb g xs @ draw_all rb (foldl (\<lambda>g n. snd (rb g n)) g xs) ys"
  by (induction xs arbitrary: g) (auto split: prod.splits)

lemma length_draw_all: "length (draw_all rb g xs) = length xs"
  by (induction xs arbitrary: g) (auto split: prod.splits)

lemma make_video_draws:
  assumes "length titles = 10"
  shows "make_video rb titles g i =
           py_bind (record_of_draws titles i (draw_all rb g record_bounds))
             (\<lambda>v. Inr (v, foldl (\<lambda>g n. snd (rb g n)) g record_bounds))"
proof -
  have t: "titles \<noteq> []" using assms by auto
  obtain r1 g1 where d1: "rb g 10 = (r1, g1)" by (cases "rb g 10") auto
  obtain r2 g2 where d2: "rb g1 6 = (r2, g2)" by (cases "rb g1 6") auto
  obtain r3 g3 where d3: "rb g2 2499001 = (r3, g3)" by (cases "rb g2 2499001") auto
  obtain r4 g4 where d4: "rb g3 901 = (r4, g4)" by (cases "rb g3 901") auto
  obtain r5 g5 where d5: "rb g4 2 = (r5, g5)" by (cases "rb g4 2") auto
  obtain r6 g6 where d6: "rb g5 60 = (r6, g6)" by (cases "rb g5 60") auto
  obtain r7 g7 where d7: "rb g6 60 = (r7, g7)" by (cases "rb g6 60") auto
  obtain r8 g8 where d8: "rb g7 7 = (r8, g8)" by (cases "rb g7 7") auto
  have ds: "draw_all rb g record_bounds = [r1, r2, r3, r4, r5, r6, r7, r8]"
    by (simp add: record_bounds_def d1 d2 d3 d4 d5 d6 d7 d8)
  have fs: "foldl (\<lambda>g n. snd (rb g n)) g record_bounds = g8"
    by (simp add: record_bounds_def d1 d2 d3 d4 d5 d6 d7 d8)
  have lp: "length palette = 7" by (simp add: palette_def)
  have lc: "length channels = 6" by (simp add: channels_def)
  have c1: "choice rb g titles = (if r1 < 10 then Inr (titles ! r1, g1) else Inl IndexError)"
    using t by (simp add: choice_def assms d1)
  have c2: "choice rb g1 channels = (if r2 < 6 then Inr (channels ! r2, g2) else Inl IndexError)"
    by (simp add: choice_def lc d2) (simp add: channels_def)
  have c3: "randint rb g2 1000 2500000 = Inr (1000 + int r3, g3)"
    by (simp add: randint_def d3)
  have c4: "randint rb g3 0 900 = Inr (int r4, g4)"
    by (simp add: randint_def d4)
  have c5: "randint rb g4 1 2 = Inr (1 + int r5, g5)"
    by (simp add: randint_def d5)
  have c6: "randint rb g5 0 59 = Inr (int r6, g6)"
    by (simp add: randint_def d6)
  have c7: "randint rb g6 0 59 = Inr (int r7, g7)"
    by (simp add: randint_def d7)
  have c8: "choice rb g7 palette = (if r8 < 7 then Inr (palette ! r8, g8) else Inl IndexError)"
    by (simp add: choice_def lp d8) (simp add: palette_def)
  show ?thesis
    unfolding ds fs
    by (simp add: make_video_def record_of_draws_def py_bind_def c1 c2 c3 c4 c5 c6 c7 c8)
qed

lemma gen_videos_draws:
  assumes "length titles = 10"
  shows "gen_videos rb titles g i n =
           catalog_of_draws titles i n (draw_all rb g (concat (replicate n record_bounds)))"
proof (induction n arbitrary: g i)
  case 0
  show ?case by simp
next
  case (Suc n)
  have l: "length (draw_all rb g record_bounds) = 8"
    by (simp only: length_draw_all) (simp add: record_bounds_def)
  show ?case
    by (simp add: make_video_draws[OF assms] draw_all_append l Suc.IH py_bind_def
          split: sum.splits)
qed

text \<open>
  Claim C7.  The catalog of either file is a function of the seed alone: it is the
  specification's catalog built from the list of the 192 numbers that the generator
  seeded with 42 draws, eight for each of the 24 records in the order title, channel,
  views, age, hour, minute, second, colour.  Two runs from the same seed therefore
  yield the same records in the same order.
\<close>

theorem mock_videos_deterministic:
  "MOCK_VIDEOS r titles_gui =
     catalog_of_draws titles_gui 0 24
       (draw_all (randbelow r) (seed r 42) (concat (replicate 24 record_bounds)))
   \<and> MOCK_VIDEOS r titles_better =
     catalog_of_draws titles_better 0 24
       (draw_all (randbelow r) (seed r 42) (concat (replicate 24 record_bounds)))"
proof -
  have g: "length titles_gui = 10" by (simp add: titles_gui_def)
  have b: "length titles_better = 10" by (simp add: titles_better_def)
  show ?thesis
    unfolding MOCK_VIDEOS_def gen_videos_draws[OF g] gen_videos_draws[OF b]
    by (intro conjI refl)
qed


section \<open>The scaled lengths of \<open>make_thumb\<close> never raise\<close>

lemma rhe_one: "round_half_even P 1 = P"
  by (simp add: round_half_even_def)

lemma double_overflow_large: "2 ^ 31 * 2 ^ 53 \<le> double_overflow"
  by (simp add: double_overflow_def)

lemma nearest_double_zero: "nearest_double 0 q = Finite 0 0"
  by (simp add: nearest_double_def round_double_def)

lemma binade_nonpos:
  assumes "0 < p" and "p \<le> q"
  shows "binade p q \<le> 0"
proof -
  have "bit_length p \<le> bit_length q" using bit_length_mono[OF assms] .
  then show ?thesis by (simp add: binade_def Let_def)
qed

lemma nearest_double_lt1:
  assumes "0 < p" and "p \<le> q"
  shows "\<exists>m e. nearest_double p q = Finite m e"
proof -
  have k: "binade p q \<le> 0" using binade_nonpos[OF assms] .
  obtain m e where r: "round_double \<bar>p\<bar> q = (m, e)" by (cases "round_double \<bar>p\<bar> q") auto
  have "e = max (binade p q - 52) (- 1074)"
    using r assms(1) by (simp add: round_double_def Let_def)
  with k have "e \<le> - 52" by simp
  then show ?thesis using r by (simp add: nearest_double_def)
qed

lemma nearest_double_finite:
  assumes "0 \<le> p" and "0 < q" and "p < q * double_overflow"
  shows "\<exists>m e. nearest_double p q = Finite m e"
proof (cases "p = 0")
  case True
  then show ?thesis by (simp add: nearest_double_zero)
next
  case False
  with assms(1) have p: "0 < p" by simp
  show ?thesis
  proof (cases "p \<le> q")
    case True
    with p show ?thesis by (rule nearest_double_lt1)
  next
    case False
    then have "q \<le> p" by simp
    from nearest_double_ge1[OF assms(2) this] assms(3) show ?thesis by simp
  qed
qed

lemma float_of_int_small:
  assumes "0 < W" and "W < 2 ^ 31"
  shows "\<exists>a. a \<le> 52 \<and> float_of_int W = Inr (Finite (W * 2 ^ a) (- int a))"
proof -
  define k where "k = binade W 1"
  have w1: "(0::int) < 1" "1 \<le> W" using assms(1) by simp_all
  have k0: "0 \<le> k" using binade_ge[OF w1] by (simp add: k_def)
  have "W < 1 * 2 ^ 31" using assms(2) by simp
  then have k1: "k < 31" using binade_less[OF w1, of 31] by (simp add: k_def)
  define a where "a = nat (52 - k)"
  have ka: "k - 52 = - int a" using k1 by (simp add: a_def)
  have n0: "nat (k - 52) = 0" using k1 by simp
  have "W < 1 * double_overflow" using assms(2) double_overflow_large by simp
  then have "nearest_double W 1 =
      Finite (round_half_even (W * 2 ^ nat (52 - binade W 1)) (1 * 2 ^ nat (binade W 1 - 52))) (binade W 1 - 52)"
    using nearest_double_ge1[OF w1] by simp
  then have "nearest_double W 1 = Finite (round_half_even (W * 2 ^ a) (1 * 2 ^ nat (k - 52))) (k - 52)"
    by (simp only: k_def a_def)
  then have "nearest_double W 1 = Finite (W * 2 ^ a) (k - 52)"
    by (simp only: n0 power_0 mult_1_right rhe_one)
  then have "nearest_double W 1 = Finite (W * 2 ^ a) (- int a)"
    by (simp only: ka)
  then have "float_of_int W = Inr (Finite (W * 2 ^ a) (- int a))"
    by (simp add: float_of_int_def)
  moreover have "a \<le> 52" using k0 by (simp add: a_def)
  ultimately show ?thesis by blast
qed

lemma int_scaled_total:
  assumes "0 \<le> W" and "W < 2 ^ 31" and "0 \<le> M" and "M < 2 ^ 53" and "E \<le> 0"
  shows "\<exists>n. int_scaled W (Finite M E) = Inr n"
proof (cases "W = 0")
  case True
  have "float_of_int 0 = Inr (Finite 0 0)"
    by (simp add: float_of_int_def nearest_double_zero)
  then show ?thesis
    using True by (simp add: int_scaled_def py_bind_def nearest_double_zero)
next
  case False
  with assms(1) have w: "0 < W" by simp
  obtain a where a: "float_of_int W = Inr (Finite (W * 2 ^ a) (- int a))"
    using float_of_int_small[OF w assms(2)] by blast
  define b where "b = nat (- E)"
  have e: "nat (- int a + E) = 0" "nat (- (- int a + E)) = a + b"
    using assms(5) by (simp_all add: b_def)
  have f: "fmul (Finite (W * 2 ^ a) (- int a)) (Finite M E) = nearest_double (W * 2 ^ a * M) (2 ^ (a + b))"
    by (simp only: fmul.simps e power_0 mult_1_right)
  have wm: "W * M < 2 ^ 31 * 2 ^ 53"
  proof (cases "M = 0")
    case True
    then show ?thesis by simp
  next
    case False
    with assms(3) have "0 < M" by simp
    have "W * M < 2 ^ 31 * M" using assms(2) \<open>0 < M\<close> by simp
    also have "\<dots> < 2 ^ 31 * 2 ^ 53" using assms(4) by simp
    finally show ?thesis .
  qed
  have p0: "0 \<le> W * 2 ^ a * M" using assms(1,3) by simp
  have q0: "(0::int) < 2 ^ (a + b)" by simp
  have "W * 2 ^ a * M = (W * M) * 2 ^ a" by (simp add: mult_ac)
  also have "\<dots> < (2 ^ 31 * 2 ^ 53) * 2 ^ a" using wm by simp
  also have "\<dots> \<le> double_overflow * 2 ^ a"
    using double_overflow_large by (rule mult_right_mono) simp
  also have "\<dots> \<le> double_overflow * 2 ^ (a + b)"
  proof -
    have "(2::int) ^ a \<le> 2 ^ (a + b)" by (rule power_increasing) simp_all
    moreover have "0 \<le> double_overflow" using double_overflow_large by simp
    ultimately show ?thesis by (rule mult_left_mono)
  qed
  finally have "W * 2 ^ a * M < 2 ^ (a + b) * double_overflow" by (simp add: mult.commute)
  from nearest_double_finite[OF p0 q0 this]
  obtain m e' where "nearest_double (W * 2 ^ a * M) (2 ^ (a + b)) = Finite m e'" by blast
  then show ?thesis
    by (simp add: int_scaled_def py_bind_def a f del: fmul.simps)
qed

lemma int_scaled_0_16:
  assumes "0 \<le> W" and "W \<le> INT_MAX"
  shows "\<exists>n. int_scaled W lit_0_16 = Inr n"
proof -
  have "W < 2 ^ 31" using assms(2) by (simp add: INT_MAX_def)
  from int_scaled_total[OF assms(1) this, of 5764607523034235 "- 55"]
  show ?thesis by (simp add: lit_0_16_eq)
qed

lemma int_scaled_0_20:
  assumes "0 \<le> W" and "W \<le> INT_MAX"
  shows "\<exists>n. int_scaled W lit_0_20 = Inr n"
proof -
  have "W < 2 ^ 31" using assms(2) by (simp add: INT_MAX_def)
  from int_scaled_total[OF assms(1) this, of 7205759403792794 "- 55"]
  show ?thesis by (simp add: lit_0_20_eq)
qed


section \<open>Properties of the thumbnail factory\<close>

lemmas pil_defs = Image_new_def convert_def Image_alpha_composite_def alpha_composite_at_def
  polygon_def multiline_text_def rounded_rectangle_def putalpha_def paste_def GaussianBlur_def
  apply_rounded_def rounded_shadow_rgba_def

lemma thumb_gui_ok:
  assumes "0 \<le> w" and "w \<le> INT_MAX" and "0 \<le> h" and "h \<le> INT_MAX"
  shows "\<exists>im. thumb_gui ev t col (w, h) = Inr im \<and> im_size im = (w, h) \<and> im_mode im = Mode_RGB"
proof -
  obtain n1 where n1: "int_scaled w lit_0_16 = Inr n1"
    using int_scaled_0_16[OF assms(1,2)] by blast
  obtain n2 where n2: "int_scaled h lit_0_20 = Inr n2"
    using int_scaled_0_20[OF assms(3,4)] by blast
  obtain x0 y0 x1 y1 where bb: "textbbox ev (load_font ev 28) (wrap t 24) = (x0, y0, x1, y1)"
    by (cases "textbbox ev (load_font ev 28) (wrap t 24)") auto
  show ?thesis
    using assms
    by (simp add: thumb_gui_def pil_defs py_bind_def n1 n2 bb Let_def)
qed

lemma thumb_gui_negative:
  assumes "w < 0 \<or> h < 0"
  shows "thumb_gui ev t col (w, h) = Inl ValueError"
  using assms by (simp add: thumb_gui_def Image_new_def py_bind_def)

lemma thumb_better_negative:
  assumes "w < 0 \<or> h < 0"
  shows "thumb_better ev t col (w, h) = Inl ValueError"
  using assms by (simp add: thumb_better_def Image_new_def py_bind_def Let_def)

text \<open>
  The canvas before the final resize: with non-negative sizes within the library's
  limit every step up to it succeeds, and the canvas is an RGBA image 32 pixels wider
  and higher than the doubled size.
\<close>

lemma thumb_better_resize:
  assumes "0 \<le> w" and "2 * w + 32 \<le> INT_MAX" and "0 \<le> h" and "2 * h + 32 \<le> INT_MAX"
  shows "\<exists>canvas. thumb_better ev t col (w, h) = resize canvas (w, h)
           \<and> im_mode canvas = Mode_RGBA \<and> im_size canvas = (2 * w + 32, 2 * h + 32)"
proof -
  have W: "0 \<le> w * 2" "w * 2 \<le> INT_MAX" and H: "0 \<le> h * 2" "h * 2 \<le> INT_MAX"
    using assms by simp_all
  obtain n1 where n1: "int_scaled (w * 2) lit_0_16 = Inr n1"
    using int_scaled_0_16[OF W] by blast
  obtain n2 where n2: "int_scaled (h * 2) lit_0_20 = Inr n2"
    using int_scaled_0_20[OF H] by blast
  obtain x0 y0 x1 y1 where bb: "textbbox ev (load_font ev 56) (wrap t 42) = (x0, y0, x1, y1)"
    by (cases "textbbox ev (load_font ev 56) (wrap t 42)") auto
  have l: "\<not> w * 2 > INT_MAX" "\<not> h * 2 > INT_MAX" "\<not> w * 2 + 32 > INT_MAX" "\<not> h * 2 + 32 > INT_MAX"
    using assms by simp_all
  show ?thesis
    using assms(1,3) l
    apply (simp add: thumb_better_def pil_defs py_bind_def n1 n2 bb Let_def)
    apply (rule exI)
    apply (intro conjI)
      apply (rule refl)
     apply simp_all
    done
qed

lemma thumb_better_ok:
  assumes "0 < w" and "2 * w + 32 \<le> INT_MAX" and "0 < h" and "2 * h + 32 \<le> INT_MAX"
  shows "\<exists>im. thumb_better ev t col (w, h) = Inr im \<and> im_size im = (w, h) \<and> im_mode im = Mode_RGBA"
proof -
  have "0 \<le> w" "0 \<le> h" using assms by simp_all
  from thumb_better_resize[OF this(1) assms(2) this(2) assms(4)]
  obtain canvas where c: "thumb_better ev t col (w, h) = resize canvas (w, h)"
    "im_mode canvas = Mode_RGBA" "im_size canvas = (2 * w + 32, 2 * h + 32)"
    by blast
  show ?thesis
    using assms(1,3) by (simp add: c resize_def)
qed

lemma thumb_better_zero:
  assumes "0 \<le> w" and "2 * w + 32 \<le> INT_MAX" and "0 \<le> h" and "2 * h + 32 \<le> INT_MAX"
    and "w = 0 \<or> h = 0"
  shows "thumb_better ev t col (w, h) = Inl ValueError"
proof -
  from thumb_better_resize[OF assms(1-4)]
  obtain canvas where c: "thumb_better ev t col (w, h) = resize canvas (w, h)"
    "im_mode canvas = Mode_RGBA" "im_size canvas = (2 * w + 32, 2 * h + 32)"
    by blast
  show ?thesis
    using assms by (auto simp: c resize_def)
qed

lemma cache_sound_store:
  assumes "cache_sound m s" and "im_size im = sz" and "im_mode im = m"
  shows "cache_sound m (snd (store_thumb s (t, c, sz) im))"
  using assms
  by (auto simp: cache_sound_def store_thumb_def nth_append less_Suc_eq)

lemma cache_sound_empty: "cache_sound m empty_state"
  by (simp add: cache_sound_def empty_state_def)

lemma make_thumb_better_ok:
  assumes "cache_sound Mode_RGBA s"
    and "0 < w" and "2 * w + 32 \<le> INT_MAX" and "0 < h" and "2 * h + 32 \<le> INT_MAX"
  shows "\<exists>obj s'. make_thumb_better ev s t col (w, h) = Inr (obj, s') \<and> obj < length (objects s')
           \<and> im_size (objects s' ! obj) = (w, h) \<and> im_mode (objects s' ! obj) = Mode_RGBA
           \<and> cache_sound Mode_RGBA s'"
proof (cases "ASSET_CACHE s (t, col, (w, h))")
  case (Some obj)
  then have "make_thumb_better ev s t col (w, h) = Inr (obj, s)"
    by (simp add: make_thumb_better_def)
  moreover have "obj < length (objects s) \<and> im_size (objects s ! obj) = (w, h)
      \<and> im_mode (objects s ! obj) = Mode_RGBA"
    using assms(1) Some unfolding cache_sound_def by blast
  ultimately show ?thesis using assms(1) by blast
next
  case None
  obtain im where im: "thumb_better ev t col (w, h) = Inr im" "im_size im = (w, h)" "im_mode im = Mode_RGBA"
    using thumb_better_ok[OF assms(2-5)] by blast
  have "make_thumb_better ev s t col (w, h) = Inr (store_thumb s (t, col, (w, h)) im)"
    using None by (simp add: make_thumb_better_def py_bind_def im(1))
  moreover have "cache_sound Mode_RGBA (snd (store_thumb s (t, col, (w, h)) im))"
    using cache_sound_store[OF assms(1) im(2,3)] .
  ultimately show ?thesis
    using im(2,3) by (simp add: store_thumb_def)
qed

lemma make_thumb_gui_ok:
  assumes "cache_sound Mode_RGB s"
    and "0 \<le> w" and "w \<le> INT_MAX" and "0 \<le> h" and "h \<le> INT_MAX"
  shows "\<exists>obj s'. make_thumb_gui ev s t col (w, h) = Inr (obj, s') \<and> obj < length (objects s')
           \<and> im_size (objects s' ! obj) = (w, h) \<and> im_mode (objects s' ! obj) = Mode_RGB
           \<and> cache_sound Mode_RGB s'"
proof (cases "ASSET_CACHE s (t, col, (w, h))")
  case (Some obj)
  then have "make_thumb_gui ev s t col (w, h) = Inr (obj, s)"
    by (simp add: make_thumb_gui_def)
  moreover have "obj < length (objects s) \<and> im_size (objects s ! obj) = (w, h)
      \<and> im_mode (objects s ! obj) = Mode_RGB"
    using assms(1) Some unfolding cache_sound_def by blast
  ultimately show ?thesis using assms(1) by blast
next
  case None
  obtain im where im: "thumb_gui ev t col (w, h) = Inr im" "im_size im = (w, h)" "im_mode im = Mode_RGB"
    using thumb_gui_ok[OF assms(2-5)] by blast
  have "make_thumb_gui ev s t col (w, h) = Inr (store_thumb s (t, col, (w, h)) im)"
    using None by (simp add: make_thumb_gui_def py_bind_def im(1))
  moreover have "cache_sound Mode_RGB (snd (store_thumb s (t, col, (w, h)) im))"
    using cache_sound_store[OF assms(1) im(2,3)] .
  ultimately show ?thesis
    using im(2,3) by (simp add: store_thumb_def)
qed


lemmas thumb_eval = make_thumb_gui_def make_thumb_better_def thumb_gui_def thumb_better_def
  returned_image_def store_thumb_def empty_state_def plain_env_def pil_defs resize_def
  load_font_def triangle_def rgb_def INT_MAX_def int_scaled_def lit_0_16_eq lit_0_20_eq
  nearest_double_zero

text \<open>
  Claim C1, as amended.  For a positive width and height within the library's limit,
  and a cache that holds for every key an image of the key's size,
  \<open>make_thumb\<close> of better_gui_concept.py returns an image of exactly the requested width
  and height with 4 channels (RGBA), whatever the supersampling; \<open>make_thumb\<close> of
  gui_concept.py returns an image of exactly the requested width and height with 3
  channels (RGB).  The cache keeps that property.
\<close>

theorem make_thumb_shape:
  "(cache_sound Mode_RGBA s \<and> 0 < w \<and> 2 * w + 32 \<le> INT_MAX \<and> 0 < h \<and> 2 * h + 32 \<le> INT_MAX \<longrightarrow>
      (\<exists>obj s'. make_thumb_better ev s t col (w, h) = Inr (obj, s') \<and> obj < length (objects s')
         \<and> im_size (objects s' ! obj) = (w, h) \<and> bands (im_mode (objects s' ! obj)) = 4
         \<and> cache_sound Mode_RGBA s'))
   \<and> (cache_sound Mode_RGB s \<and> 0 < w \<and> w \<le> INT_MAX \<and> 0 < h \<and> h \<le> INT_MAX \<longrightarrow>
      (\<exists>obj s'. make_thumb_gui ev s t col (w, h) = Inr (obj, s') \<and> obj < length (objects s')
         \<and> im_size (objects s' ! obj) = (w, h) \<and> bands (im_mode (objects s' ! obj)) = 3
         \<and> cache_sound Mode_RGB s'))"
proof (intro conjI impI)
  assume a: "cache_sound Mode_RGBA s \<and> 0 < w \<and> 2 * w + 32 \<le> INT_MAX \<and> 0 < h \<and> 2 * h + 32 \<le> INT_MAX"
  then obtain obj s' where r: "make_thumb_better ev s t col (w, h) = Inr (obj, s')"
    "obj < length (objects s')" "im_size (objects s' ! obj) = (w, h)"
    "im_mode (objects s' ! obj) = Mode_RGBA" "cache_sound Mode_RGBA s'"
    using make_thumb_better_ok[of s w h ev t col] by blast
  from r(4) have "bands (im_mode (objects s' ! obj)) = 4" by simp
  with r show "\<exists>obj s'. make_thumb_better ev s t col (w, h) = Inr (obj, s') \<and> obj < length (objects s')
         \<and> im_size (objects s' ! obj) = (w, h) \<and> bands (im_mode (objects s' ! obj)) = 4
         \<and> cache_sound Mode_RGBA s'"
    by blast
next
  assume a: "cache_sound Mode_RGB s \<and> 0 < w \<and> w \<le> INT_MAX \<and> 0 < h \<and> h \<le> INT_MAX"
  then have "cache_sound Mode_RGB s" "0 \<le> w" "w \<le> INT_MAX" "0 \<le> h" "h \<le> INT_MAX"
    by simp_all
  from make_thumb_gui_ok[OF this, of ev t col]
  obtain obj s' where r: "make_thumb_gui ev s t col (w, h) = Inr (obj, s')"
    "obj < length (objects s')" "im_size (objects s' ! obj) = (w, h)"
    "im_mode (objects s' ! obj) = Mode_RGB" "cache_sound Mode_RGB s'"
    by blast
  from r(4) have "bands (im_mode (objects s' ! obj)) = 3" by simp
  with r show "\<exists>obj s'. make_thumb_gui ev s t col (w, h) = Inr (obj, s') \<and> obj < length (objects s')
         \<and> im_size (objects s' ! obj) = (w, h) \<and> bands (im_mode (objects s' ! obj)) = 3
         \<and> cache_sound Mode_RGB s'"
    by blast
qed

theorem make_thumb_shape_witness:
  "cache_sound Mode_RGBA empty_state \<and> (0::int) < 480 \<and> 2 * 480 + 32 \<le> INT_MAX
   \<and> (0::int) < 270 \<and> 2 * 270 + 32 \<le> INT_MAX
   \<and> (\<exists>obj s'. make_thumb_better plain_env empty_state (ascii ''X'') (10, 20, 30) (480, 270) = Inr (obj, s')
         \<and> obj < length (objects s') \<and> im_size (objects s' ! obj) = (480, 270)
         \<and> bands (im_mode (objects s' ! obj)) = 4 \<and> cache_sound Mode_RGBA s')"
proof -
  have h: "cache_sound Mode_RGBA empty_state \<and> (0::int) < 480 \<and> 2 * 480 + 32 \<le> INT_MAX
      \<and> (0::int) < 270 \<and> 2 * 270 + 32 \<le> INT_MAX"
    by (simp add: cache_sound_empty INT_MAX_def)
  from make_thumb_shape[of empty_state 480 270 plain_env "ascii ''X''" "(10, 20, 30)"]
  have "cache_sound Mode_RGBA empty_state \<and> (0::int) < 480 \<and> 2 * 480 + 32 \<le> INT_MAX
      \<and> (0::int) < 270 \<and> 2 * 270 + 32 \<le> INT_MAX \<longrightarrow>
      (\<exists>obj s'. make_thumb_better plain_env empty_state (ascii ''X'') (10, 20, 30) (480, 270) = Inr (obj, s')
         \<and> obj < length (objects s') \<and> im_size (objects s' ! obj) = (480, 270)
         \<and> bands (im_mode (objects s' ! obj)) = 4 \<and> cache_sound Mode_RGBA s')"
    by (rule conjunct1)
  with h show ?thesis by blast
qed

text \<open>
  The claim as stated fails for gui_concept.py: the image it returns for the size
  (480, 270) is an RGB image, of 3 channels.
\<close>

theorem make_thumb_gui_rgb_counterexample:
  "returned_image (make_thumb_gui plain_env empty_state (ascii ''X'') (10, 20, 30) (480, 270)) =
     Inr \<lparr>im_mode = Mode_RGB, im_size = (480, 270),
          im_paint =
            Converted Mode_RGB
              (Composite (Converted Mode_RGBA (Fill [10, 20, 30]))
                 (Polygon (Fill [0, 0, 0, 0]) [(215, 108), (215, 162), (316, 135)]
                    [255, 255, 255, 150])
                 (0, 0))\<rparr>"
  by (simp add: thumb_eval fl_eval)

text \<open>
  Claim C2.  When a call of \<open>make_thumb\<close> has returned an object, a second call with the
  same text, colour and size returns the same object, the one the cache holds for the
  key, and leaves the state as the first call left it: no image is made again, and the
  two calls together are the first call alone.
\<close>

theorem make_thumb_idempotent:
  "(make_thumb_better ev s t col sz = Inr (obj, s') \<longrightarrow>
      make_thumb_better ev s' t col sz = Inr (obj, s') \<and> ASSET_CACHE s' (t, col, sz) = Some obj)
   \<and> (make_thumb_gui ev s t col sz = Inr (obj, s') \<longrightarrow>
      make_thumb_gui ev s' t col sz = Inr (obj, s') \<and> ASSET_CACHE s' (t, col, sz) = Some obj)"
proof (intro conjI impI)
  assume a: "make_thumb_better ev s t col sz = Inr (obj, s')"
  have c: "ASSET_CACHE s' (t, col, sz) = Some obj"
    using a
    by (auto simp: make_thumb_better_def py_bind_def store_thumb_def
          split: option.splits sum.splits)
  then show "make_thumb_better ev s' t col sz = Inr (obj, s')"
    by (simp add: make_thumb_better_def)
  from c show "ASSET_CACHE s' (t, col, sz) = Some obj" .
next
  assume a: "make_thumb_gui ev s t col sz = Inr (obj, s')"
  have c: "ASSET_CACHE s' (t, col, sz) = Some obj"
    using a
    by (auto simp: make_thumb_gui_def py_bind_def store_thumb_def
          split: option.splits sum.splits)
  then show "make_thumb_gui ev s' t col sz = Inr (obj, s')"
    by (simp add: make_thumb_gui_def)
  from c show "ASSET_CACHE s' (t, col, sz) = Some obj" .
qed

theorem make_thumb_idempotent_witness:
  "(\<exists>obj s'. make_thumb_better plain_env empty_state (ascii ''X'') (10, 20, 30) (320, 180) = Inr (obj, s')
      \<and> make_thumb_better plain_env s' (ascii ''X'') (10, 20, 30) (320, 180) = Inr (obj, s'))
   \<and> (\<exists>obj s'. make_thumb_gui plain_env empty_state (ascii ''X'') (10, 20, 30) (320, 180) = Inr (obj, s')
      \<and> make_thumb_gui plain_env s' (ascii ''X'') (10, 20, 30) (320, 180) = Inr (obj, s'))"
proof -
  have b: "(0::int) < 320" "2 * 320 + 32 \<le> INT_MAX" "(0::int) < 180" "2 * 180 + 32 \<le> INT_MAX"
    by (simp_all add: INT_MAX_def)
  obtain o1 s1 where r1:
    "make_thumb_better plain_env empty_state (ascii ''X'') (10, 20, 30) (320, 180) = Inr (o1, s1)"
    using make_thumb_better_ok[OF cache_sound_empty b] by blast
  have g: "(0::int) \<le> 320" "320 \<le> INT_MAX" "(0::int) \<le> 180" "180 \<le> INT_MAX"
    by (simp_all add: INT_MAX_def)
  obtain o2 s2 where r2:
    "make_thumb_gui plain_env empty_state (ascii ''X'') (10, 20, 30) (320, 180) = Inr (o2, s2)"
    using make_thumb_gui_ok[OF cache_sound_empty g] by blast
  from make_thumb_idempotent[of plain_env empty_state "ascii ''X''" "(10, 20, 30)" "(320, 180)" o1 s1] r1
  have "make_thumb_better plain_env s1 (ascii ''X'') (10, 20, 30) (320, 180) = Inr (o1, s1)" by blast
  moreover
  from make_thumb_idempotent[of plain_env empty_state "ascii ''X''" "(10, 20, 30)" "(320, 180)" o2 s2] r2
  have "make_thumb_gui plain_env s2 (ascii ''X'') (10, 20, 30) (320, 180) = Inr (o2, s2)" by blast
  ultimately show ?thesis using r1 r2 by blast
qed

text \<open>
  Claim C9, as amended.  \<open>make_thumb\<close> has no test of the size of its own.  For a key
  that is not cached, a negative width or height is rejected by the imaging library with
  \<open>ValueError\<close>, in both files, and nothing is cached.  A zero width or height (within
  the library's limit) is rejected with \<open>ValueError\<close> by \<open>make_thumb\<close> of
  better_gui_concept.py, at its final resize; \<open>make_thumb\<close> of gui_concept.py does not
  reject it: it returns, and caches, an image of that size.
\<close>

theorem make_thumb_bad_size:
  "ASSET_CACHE s (t, col, (w, h)) = None \<longrightarrow>
     ((w < 0 \<or> h < 0) \<longrightarrow>
        make_thumb_better ev s t col (w, h) = Inl ValueError
        \<and> make_thumb_gui ev s t col (w, h) = Inl ValueError)
     \<and> (0 \<le> w \<and> 0 \<le> h \<and> (w = 0 \<or> h = 0) \<and> 2 * w + 32 \<le> INT_MAX \<and> 2 * h + 32 \<le> INT_MAX \<longrightarrow>
        make_thumb_better ev s t col (w, h) = Inl ValueError
        \<and> (\<exists>im. im_size im = (w, h)
              \<and> make_thumb_gui ev s t col (w, h) = Inr (store_thumb s (t, col, (w, h)) im)))"
proof (intro impI conjI)
  assume n: "ASSET_CACHE s (t, col, (w, h)) = None" and neg: "w < 0 \<or> h < 0"
  show "make_thumb_better ev s t col (w, h) = Inl ValueError"
    using n thumb_better_negative[OF neg] by (simp add: make_thumb_better_def py_bind_def)
  show "make_thumb_gui ev s t col (w, h) = Inl ValueError"
    using n thumb_gui_negative[OF neg] by (simp add: make_thumb_gui_def py_bind_def)
next
  assume n: "ASSET_CACHE s (t, col, (w, h)) = None"
    and z: "0 \<le> w \<and> 0 \<le> h \<and> (w = 0 \<or> h = 0) \<and> 2 * w + 32 \<le> INT_MAX \<and> 2 * h + 32 \<le> INT_MAX"
  then have "thumb_better ev t col (w, h) = Inl ValueError"
    using thumb_better_zero[of w h ev t col] by blast
  then show "make_thumb_better ev s t col (w, h) = Inl ValueError"
    using n by (simp add: make_thumb_better_def py_bind_def)
  from z have "0 \<le> w" "w \<le> INT_MAX" "0 \<le> h" "h \<le> INT_MAX" by simp_all
  from thumb_gui_ok[OF this, of ev t col]
  obtain im where im: "thumb_gui ev t col (w, h) = Inr im" "im_size im = (w, h)" by blast
  then have "make_thumb_gui ev s t col (w, h) = Inr (store_thumb s (t, col, (w, h)) im)"
    using n by (simp add: make_thumb_gui_def py_bind_def)
  with im(2) show "\<exists>im. im_size im = (w, h)
      \<and> make_thumb_gui ev s t col (w, h) = Inr (store_thumb s (t, col, (w, h)) im)"
    by blast
qed

theorem make_thumb_bad_size_witness:
  "ASSET_CACHE empty_state (ascii ''X'', (10, 20, 30), (- 1, 5)) = None
   \<and> make_thumb_better plain_env empty_state (ascii ''X'') (10, 20, 30) (- 1, 5) = Inl ValueError
   \<and> make_thumb_gui plain_env empty_state (ascii ''X'') (10, 20, 30) (- 1, 5) = Inl ValueError
   \<and> ASSET_CACHE empty_state (ascii ''X'', (10, 20, 30), (0, 270)) = None
   \<and> make_thumb_better plain_env empty_state (ascii ''X'') (10, 20, 30) (0, 270) = Inl ValueError"
proof -
  have n1: "ASSET_CACHE empty_state (ascii ''X'', (10, 20, 30), (- 1, 5)) = None"
    by (simp add: empty_state_def)
  have n2: "ASSET_CACHE empty_state (ascii ''X'', (10, 20, 30), (0, 270)) = None"
    by (simp add: empty_state_def)
  have z: "(0::int) \<le> 0 \<and> (0::int) \<le> 270 \<and> ((0::int) = 0 \<or> (270::int) = 0)
      \<and> 2 * 0 + 32 \<le> INT_MAX \<and> 2 * 270 + 32 \<le> INT_MAX"
    by (simp add: INT_MAX_def)
  have neg: "(- 1::int) < 0 \<or> (5::int) < 0" by simp
  from make_thumb_bad_size[of empty_state "ascii ''X''" "(10, 20, 30)" "- 1" 5 plain_env] n1 neg
  have a: "make_thumb_better plain_env empty_state (ascii ''X'') (10, 20, 30) (- 1, 5) = Inl ValueError
      \<and> make_thumb_gui plain_env empty_state (ascii ''X'') (10, 20, 30) (- 1, 5) = Inl ValueError"
    by blast
  from make_thumb_bad_size[of empty_state "ascii ''X''" "(10, 20, 30)" 0 270 plain_env] n2 z
  have b: "make_thumb_better plain_env empty_state (ascii ''X'') (10, 20, 30) (0, 270) = Inl ValueError"
    by blast
  from n1 n2 a b show ?thesis by blast
qed

text \<open>
  The claim as stated fails for gui_concept.py: with the size (0, 0) the call is not
  rejected, it returns an empty image.
\<close>

theorem make_thumb_zero_size_counterexample:
  "returned_image (make_thumb_gui plain_env empty_state (ascii ''X'') (10, 20, 30) (0, 0)) =
     Inr \<lparr>im_mode = Mode_RGB, im_size = (0, 0),
          im_paint =
            Converted Mode_RGB
              (Composite (Converted Mode_RGBA (Fill [10, 20, 30]))
                 (Polygon (Fill [0, 0, 0, 0]) [(0, 0), (0, 0), (0, 0)] [255, 255, 255, 150])
                 (0, 0))\<rparr>"
  by (simp add: thumb_eval fl_eval)


end
